theory Spec2Isabelle
  imports Complex_Main
begin

section \<open>Image geometry compositor (App.tsx, handleGenerateClick)\<close>

text \<open>
  A JavaScript number is a double; the doubles are a subset of the reals, and the result
  of an arithmetic operation is the exact result rounded to the nearest double, a tie
  going to the even significand. \<open>double\<close> is that rounding to 53 significant bits. Its
  exponent is not bounded: it is the rounding of IEEE 754 binary64 on the normal range,
  from 2^-1022 up to 2^1024, where every number computed below lies (a pixel size is an
  integer below 2^32).
\<close>

definition round_even :: "real \<Rightarrow> int" where
  "round_even v =
     (let f = \<lfloor>v\<rfloor>; r = v - of_int f in
      if r < 1 / 2 then f else if r > 1 / 2 then f + 1 else if even f then f else f + 1)"

definition double :: "real \<Rightarrow> real" where
  "double v =
     (if v = 0 then 0
      else let e = \<lfloor>log 2 \<bar>v\<bar>\<rfloor>
           in of_int (round_even (v / 2 powr (of_int e - 52))) * 2 powr (of_int e - 52))"

text \<open>
  \<^verbatim>\<open>Math.round\<close> rounds to the nearest integer, a tie going towards plus infinity. The
  canvas sizing below is written in exact arithmetic: its product is an integer, and for
  \<^verbatim>\<open>MAX_DIMENSION\<close> times the larger term below 2^52 the rounded quotient of the code
  rounds to the same integer as the exact one.
\<close>

definition Math_round :: "real \<Rightarrow> real" where
  "Math_round v = of_int \<lfloor>v + 1 / 2\<rfloor>"

text \<open>The \<^verbatim>\<open>value\<close> field of an \<^verbatim>\<open>AspectRatio\<close>: a closed union of five literals.\<close>

datatype AspectRatioValue = R_1_1 | R_16_9 | R_9_16 | R_4_3 | R_3_4

text \<open>\<^verbatim>\<open>aspectRatio.value.split(':').map(Number)\<close> on each of the five literals.\<close>

fun split_ratio :: "AspectRatioValue \<Rightarrow> nat \<times> nat" where
  "split_ratio R_1_1 = (1, 1)"
| "split_ratio R_16_9 = (16, 9)"
| "split_ratio R_9_16 = (9, 16)"
| "split_ratio R_4_3 = (4, 3)"
| "split_ratio R_3_4 = (3, 4)"

text \<open>The pixel size of the canvas element and of the loaded image.\<close>

record size2d =
  width :: real
  height :: real

text \<open>Step 1 of \<^verbatim>\<open>handleGenerateClick\<close>: the canvas dimensions for \<^verbatim>\<open>targetW:targetH\<close>.\<close>

definition canvas_size :: "nat \<Rightarrow> nat \<Rightarrow> nat \<Rightarrow> size2d" where
  "canvas_size targetW targetH MAX_DIMENSION =
     (if targetW \<ge> targetH
      then \<lparr>width = real MAX_DIMENSION,
            height = Math_round ((real MAX_DIMENSION * real targetH) / real targetW)\<rparr>
      else \<lparr>width = Math_round ((real MAX_DIMENSION * real targetW) / real targetH),
            height = real MAX_DIMENSION\<rparr>)"

definition MAX_DIMENSION_const :: nat where
  "MAX_DIMENSION_const = 1024"

text \<open>
  Steps 3 and 4: the "contain" scale and the centred placement handed to \<^verbatim>\<open>drawImage\<close>,
  every quotient, product and difference rounded as the code computes it. The source's locals \<^verbatim>\<open>x\<close> and \<^verbatim>\<open>y\<close> are the fields \<open>drawX\<close> and \<open>drawY\<close>.
\<close>

record placement =
  ratio :: real
  scaledWidth :: real
  scaledHeight :: real
  drawX :: real
  drawY :: real

definition contain_fit :: "size2d \<Rightarrow> size2d \<Rightarrow> placement" where
  "contain_fit canvas img =
     (let hRatio = double (width canvas / width img);
          vRatio = double (height canvas / height img);
          ratio = min hRatio vRatio;
          scaledWidth = double (width img * ratio);
          scaledHeight = double (height img * ratio)
      in \<lparr>ratio = ratio, scaledWidth = scaledWidth, scaledHeight = scaledHeight,
          drawX = double (double (width canvas - scaledWidth) / 2),
          drawY = double (double (height canvas - scaledHeight) / 2)\<rparr>)"

text \<open>The geometry of one click: the canvas for the chosen ratio, then the fit of the image.\<close>

definition generate_canvas :: "AspectRatioValue \<Rightarrow> size2d" where
  "generate_canvas v = (case split_ratio v of (targetW, targetH) \<Rightarrow>
     canvas_size targetW targetH MAX_DIMENSION_const)"


section \<open>Drive entries and their classification (GoogleDriveService)\<close>

text \<open>
  A \<^verbatim>\<open>DriveFile\<close>. The fields \<^verbatim>\<open>id\<close> and \<^verbatim>\<open>name\<close> carry a suffix, since the
  breadcrumb items have fields of the same names; the optional link, size and time fields
  are read by no function modelled here and are left out.
\<close>

record DriveFile =
  id_file :: string
  name_file :: string
  mimeType :: string

definition FOLDER_MIME_TYPE :: string where
  "FOLDER_MIME_TYPE = ''application/vnd.google-apps.folder''"

text \<open>\<^verbatim>\<open>String.prototype.startsWith\<close> at position 0.\<close>

definition startsWith :: "string \<Rightarrow> string \<Rightarrow> bool" where
  "startsWith s searchString = (take (length searchString) s = searchString)"

definition isImageFile :: "DriveFile \<Rightarrow> bool" where
  "isImageFile file = startsWith (mimeType file) ''image/''"

definition isFolder :: "DriveFile \<Rightarrow> bool" where
  "isFolder file = (mimeType file = FOLDER_MIME_TYPE)"

section \<open>Promises and thrown values\<close>

text \<open>
  A value thrown or passed to \<^verbatim>\<open>reject\<close>: an \<^verbatim>\<open>Error\<close> object with its message, or
  anything else. An awaited promise is modelled by how it settles; \<open>Pending\<close> is a promise
  that never settles (a consent screen that is never answered).
\<close>

datatype js_error = JsError string | JsOther

datatype 'a settled = Pending | Rejected js_error | Resolved 'a

text \<open>JavaScript truthiness of a nullable string and of a nullable number.\<close>

definition truthy_string :: "string option \<Rightarrow> bool" where
  "truthy_string v = (case v of None \<Rightarrow> False | Some s \<Rightarrow> s \<noteq> [])"

definition truthy_number :: "int option \<Rightarrow> bool" where
  "truthy_number v = (case v of None \<Rightarrow> False | Some n \<Rightarrow> n \<noteq> 0)"

section \<open>Drive session manager (GoogleDriveAuthService)\<close>

text \<open>
  The response handed to the token client's callback: \<^verbatim>\<open>response.error\<close> (absent on
  success), \<^verbatim>\<open>access_token\<close> and \<^verbatim>\<open>expires_in\<close> (seconds).
\<close>

record GoogleAuthResponse =
  resp_error :: "string option"
  access_token :: string
  expires_in :: int

text \<open>
  The service object. \<open>tokenClient\<close> is true when the field is not null. \<open>prompts\<close> is
  not a field of the source: it counts the calls of \<^verbatim>\<open>tokenClient.requestAccessToken\<close>, the
  only place where a consent screen is opened.
\<close>

record GoogleDriveAuthService =
  accessToken :: "string option"
  tokenExpiry :: "int option"
  CLIENT_ID :: string
  tokenClient :: bool
  prompts :: nat

text \<open>
  The runtime the service finds: Google Identity Services absent, present with an
  \<^verbatim>\<open>initTokenClient\<close> that throws (the value it throws is passed on), or present and
  working.
\<close>

datatype gis = NotLoaded | InitThrows js_error | Loaded

definition initialize :: "gis \<Rightarrow> GoogleDriveAuthService \<Rightarrow> js_error + GoogleDriveAuthService" where
  "initialize g s =
     (if CLIENT_ID s = [] then Inl (JsError ''Google Client ID is not configured'')
      else case g of
             NotLoaded \<Rightarrow> Inl (JsError ''Google Identity Services not loaded'')
           | InitThrows thrown \<Rightarrow> Inl thrown
           | Loaded \<Rightarrow> Inr (s\<lparr>tokenClient := True\<rparr>))"

text \<open>
  \<^verbatim>\<open>requestAccessToken\<close>. The provider's reply is \<open>None\<close> when the callback is never
  invoked, and otherwise the value of \<^verbatim>\<open>Date.now()\<close> (milliseconds, a natural number) when
  the callback runs together with the response it receives.
\<close>

definition requestAccessToken ::
  "gis \<Rightarrow> (nat \<times> GoogleAuthResponse) option \<Rightarrow> GoogleDriveAuthService
     \<Rightarrow> GoogleDriveAuthService \<times> string settled" where
  "requestAccessToken g reply s =
     (case (if \<not> tokenClient s then initialize g s else Inr s) of
        Inl e \<Rightarrow> (s, Rejected e)
      | Inr s1 \<Rightarrow>
          if \<not> tokenClient s1 then (s1, Rejected (JsError ''Token client not initialized''))
          else
            let s2 = s1\<lparr>prompts := Suc (prompts s1)\<rparr> in
            (case reply of
               None \<Rightarrow> (s2, Pending)
             | Some (now, response) \<Rightarrow>
                 if truthy_string (resp_error response)
                 then (s2, Rejected (JsError (case resp_error response of
                                                Some m \<Rightarrow> m | None \<Rightarrow> [])))
                 else (s2\<lparr>accessToken := Some (access_token response),
                          tokenExpiry := Some (int now + expires_in response * 1000)\<rparr>,
                       Resolved (access_token response))))"

text \<open>\<^verbatim>\<open>Date.now() < this.tokenExpiry\<close>, with null converted to 0 by the comparison.\<close>

definition before_expiry :: "nat \<Rightarrow> int option \<Rightarrow> bool" where
  "before_expiry now v = (case v of None \<Rightarrow> int now < 0 | Some e \<Rightarrow> int now < e)"

definition getAccessToken ::
  "gis \<Rightarrow> nat \<Rightarrow> (nat \<times> GoogleAuthResponse) option \<Rightarrow> GoogleDriveAuthService
     \<Rightarrow> GoogleDriveAuthService \<times> string settled" where
  "getAccessToken g now reply s =
     (if truthy_string (accessToken s) \<and> truthy_number (tokenExpiry s)
         \<and> before_expiry now (tokenExpiry s)
      then (case accessToken s of
              Some token \<Rightarrow> (s, Resolved token)
            | None \<Rightarrow> requestAccessToken g reply s)
      else requestAccessToken g reply s)"

definition isAuthenticated :: "GoogleDriveAuthService \<Rightarrow> nat \<Rightarrow> bool" where
  "isAuthenticated s now =
     (truthy_string (accessToken s) \<and> truthy_number (tokenExpiry s)
        \<and> before_expiry now (tokenExpiry s))"

definition signOut :: "GoogleDriveAuthService \<Rightarrow> GoogleDriveAuthService" where
  "signOut s = s\<lparr>accessToken := None, tokenExpiry := None\<rparr>"

text \<open>
  The operations a client of the service calls, and a run of them, each at its own reading
  of the clock.
\<close>

datatype auth_op =
    OpInitialize gis
  | OpGetAccessToken gis "(nat \<times> GoogleAuthResponse) option"
  | OpIsAuthenticated
  | OpSignOut

fun auth_step :: "nat \<times> auth_op \<Rightarrow> GoogleDriveAuthService \<Rightarrow> GoogleDriveAuthService" where
  "auth_step (now, OpInitialize g) s = (case initialize g s of Inl e \<Rightarrow> s | Inr s' \<Rightarrow> s')"
| "auth_step (now, OpGetAccessToken g reply) s = fst (getAccessToken g now reply s)"
| "auth_step (now, OpIsAuthenticated) s = s"
| "auth_step (now, OpSignOut) s = signOut s"

definition auth_run :: "(nat \<times> auth_op) list \<Rightarrow> GoogleDriveAuthService \<Rightarrow> GoogleDriveAuthService" where
  "auth_run ops s = fold auth_step ops s"

text \<open>Whether an operation is the sign-out.\<close>

fun is_sign_out :: "auth_op \<Rightarrow> bool" where
  "is_sign_out OpSignOut = True"
| "is_sign_out _ = False"

section \<open>Listing a folder (GoogleDriveService.listFiles)\<close>

text \<open>
  A value parsed from JSON, as \<^verbatim>\<open>response.json()\<close> delivers it. The TypeScript type
  \<^verbatim>\<open>DriveApiResponse\<close> is not checked at run time: the body can be any JSON value. An
  object is the list of its fields, each key once.
\<close>

datatype json_value =
    JNull
  | JBool bool
  | JNumber real
  | JString string
  | JArray "json_value list"
  | JObject "(string \<times> json_value) list"

text \<open>JavaScript truthiness of a parsed value.\<close>

fun truthy :: "json_value \<Rightarrow> bool" where
  "truthy JNull = False"
| "truthy (JBool b) = b"
| "truthy (JNumber n) = (n \<noteq> 0)"
| "truthy (JString s) = (s \<noteq> [])"
| "truthy (JArray xs) = True"
| "truthy (JObject members) = True"

text \<open>
  Reading the property \<^verbatim>\<open>files\<close> or \<^verbatim>\<open>nextPageToken\<close> of a parsed value other than
  null: the field of an object, and undefined (\<open>None\<close>) on an object without it and on a
  boolean, number, string or array, none of which has a property of either name. Reading
  a property of null throws a TypeError, an \<^verbatim>\<open>Error\<close> whose message is the engine's; the
  text below stands for it.
\<close>

definition own_field :: "json_value \<Rightarrow> string \<Rightarrow> json_value option" where
  "own_field data key = (case data of JObject members \<Rightarrow> map_of members key | _ \<Rightarrow> None)"

definition null_read_message :: string where
  "null_read_message = ''Cannot read properties of null''"

text \<open>
  The HTTP response with the outcome of \<^verbatim>\<open>response.json()\<close>, and the object
  \<^verbatim>\<open>listFiles\<close> returns: \<^verbatim>\<open>data.files || []\<close> and \<^verbatim>\<open>data.nextPageToken\<close>.
\<close>

record http_response =
  ok :: bool
  statusText :: string
  json :: "json_value settled"

record file_page =
  page_files :: json_value
  page_nextPageToken :: "json_value option"

text \<open>
  \<open>fetch\<close> is the Drive endpoint as the caller sees it: how the request for the children
  of a folder, with an optional page token and a bearer token, settles.
\<close>

definition listFiles ::
  "gis \<Rightarrow> nat \<Rightarrow> (nat \<times> GoogleAuthResponse) option
     \<Rightarrow> (string \<Rightarrow> string option \<Rightarrow> string \<Rightarrow> http_response settled)
     \<Rightarrow> string \<Rightarrow> string option \<Rightarrow> GoogleDriveAuthService
     \<Rightarrow> GoogleDriveAuthService \<times> file_page settled" where
  "listFiles g now reply fetch folderId pageToken s =
     (case getAccessToken g now reply s of
        (s', Pending) \<Rightarrow> (s', Pending)
      | (s', Rejected e) \<Rightarrow> (s', Rejected e)
      | (s', Resolved token) \<Rightarrow>
          (case fetch folderId (if truthy_string pageToken then pageToken else None) token of
             Pending \<Rightarrow> (s', Pending)
           | Rejected e \<Rightarrow> (s', Rejected e)
           | Resolved response \<Rightarrow>
               if \<not> ok response
               then (s', Rejected (JsError (''Failed to fetch files: '' @ statusText response)))
               else (case json response of
                       Pending \<Rightarrow> (s', Pending)
                     | Rejected e \<Rightarrow> (s', Rejected e)
                     | Resolved data \<Rightarrow>
                         if data = JNull then (s', Rejected (JsError null_read_message))
                         else
                           (s', Resolved
                              \<lparr>page_files =
                                 (case own_field data ''files'' of
                                    None \<Rightarrow> JArray []
                                  | Some v \<Rightarrow> if truthy v then v else JArray []),
                               page_nextPageToken = own_field data ''nextPageToken''\<rparr>))))"

section \<open>Drive directory navigator (GoogleDriveBrowser)\<close>

record BreadcrumbItem =
  id_item :: string
  name_item :: string

text \<open>
  The component's state variables. The variable \<^verbatim>\<open>isAuthenticated\<close> is the field
  \<open>authenticated\<close>, the name being taken by the method of the service.
\<close>

record browser =
  files :: "DriveFile list"
  currentFolderId :: string
  breadcrumb :: "BreadcrumbItem list"
  loading :: bool
  error :: "string option"
  authenticated :: bool

definition root_item :: BreadcrumbItem where
  "root_item = \<lparr>id_item = ''root'', name_item = ''My Drive''\<rparr>"

definition initial_browser :: browser where
  "initial_browser =
     \<lparr>files = [], currentFolderId = ''root'', breadcrumb = [root_item],
      loading = False, error = None, authenticated = False\<rparr>"

text \<open>
  The component together with the listings it has started and that have not settled yet.
  \<^verbatim>\<open>loadFiles\<close> is asynchronous: it runs up to the \<^verbatim>\<open>await\<close>, and its continuation runs
  when the listing settles, after any handler that ran in between. Each started listing is
  recorded with the number under which it was issued and the folder it asks for; \<open>issued\<close>
  counts the listings started so far. Neither is a variable of the source: they name the
  promises the source creates.
\<close>

record nav_system =
  ui :: browser
  inflight :: "(nat \<times> string) list"
  issued :: nat

definition initial_system :: nav_system where
  "initial_system = \<lparr>ui = initial_browser, inflight = [], issued = 0\<rparr>"

text \<open>\<^verbatim>\<open>loadFiles\<close> up to its \<^verbatim>\<open>await\<close>.\<close>

definition loadFiles_begin :: "string \<Rightarrow> nav_system \<Rightarrow> nav_system" where
  "loadFiles_begin folderId s =
     s\<lparr>ui := (ui s)\<lparr>loading := True, error := None\<rparr>,
       inflight := inflight s @ [(issued s, folderId)],
       issued := Suc (issued s)\<rparr>"

text \<open>
  \<^verbatim>\<open>loadFiles\<close> after its \<^verbatim>\<open>await\<close>: the \<^verbatim>\<open>try\<close> branch on the fetched files, the
  \<^verbatim>\<open>catch\<close> branch on the thrown value, and \<^verbatim>\<open>finally\<close>.
\<close>

definition loadFiles_settle :: "js_error + DriveFile list \<Rightarrow> browser \<Rightarrow> browser" where
  "loadFiles_settle outcome b =
     (case outcome of
        Inr fetchedFiles \<Rightarrow> b\<lparr>files := fetchedFiles, loading := False\<rparr>
      | Inl err \<Rightarrow>
          b\<lparr>error := Some (case err of JsError message \<Rightarrow> message
                                        | JsOther \<Rightarrow> ''Failed to load files''),
            loading := False\<rparr>)"

definition handleFolderClick :: "DriveFile \<Rightarrow> nav_system \<Rightarrow> nav_system" where
  "handleFolderClick folder s =
     loadFiles_begin (id_file folder)
       (s\<lparr>ui := (ui s)\<lparr>currentFolderId := id_file folder,
                        breadcrumb := breadcrumb (ui s)
                          @ [\<lparr>id_item = id_file folder, name_item = name_file folder\<rparr>]\<rparr>\<rparr>)"

text \<open>
  \<^verbatim>\<open>handleBreadcrumbClick\<close>. The index is the position of a rendered breadcrumb button,
  a natural number; \<^verbatim>\<open>slice(0, index + 1)\<close> keeps the first \<open>index + 1\<close> items, all of them
  when there are fewer. On an empty path \<^verbatim>\<open>targetFolder\<close> is undefined and reading its
  \<^verbatim>\<open>id\<close> throws, after \<^verbatim>\<open>setBreadcrumb\<close> has been called.
\<close>

definition handleBreadcrumbClick :: "nat \<Rightarrow> nav_system \<Rightarrow> nav_system" where
  "handleBreadcrumbClick index s =
     (let newBreadcrumb = take (index + 1) (breadcrumb (ui s)) in
      case rev newBreadcrumb of
        [] \<Rightarrow> s\<lparr>ui := (ui s)\<lparr>breadcrumb := newBreadcrumb\<rparr>\<rparr>
      | targetFolder # _ \<Rightarrow>
          loadFiles_begin (id_item targetFolder)
            (s\<lparr>ui := (ui s)\<lparr>breadcrumb := newBreadcrumb,
                             currentFolderId := id_item targetFolder\<rparr>\<rparr>))"

text \<open>
  The callbacks the component receives from its caller. \<^verbatim>\<open>onClose\<close> asks the caller to
  close the browser (the caller owns \<^verbatim>\<open>isOpen\<close>); in the component only the button of
  the header calls it.
\<close>

datatype callback = OnSelectFile DriveFile | OnClose

definition handleCloseClick :: "nav_system \<Rightarrow> nav_system \<times> callback list" where
  "handleCloseClick s = (s, [OnClose])"


text \<open>
  \<^verbatim>\<open>handleAuthentication\<close>, started by the effect of line 31 and by the retry button
  shown with an error. It runs up to its first \<^verbatim>\<open>await\<close>; when the service rejects, its
  \<^verbatim>\<open>catch\<close> and \<^verbatim>\<open>finally\<close> run; when the token is obtained it sets the state variable and
  starts the listing of the root, whatever the current folder is. Its \<^verbatim>\<open>finally\<close> then
  runs right after that listing has settled and sets \<open>loading\<close> to false once more, which
  the settling listing has just done.
\<close>

definition handleAuthentication_begin :: "nav_system \<Rightarrow> nav_system" where
  "handleAuthentication_begin s = s\<lparr>ui := (ui s)\<lparr>loading := True, error := None\<rparr>\<rparr>"

definition handleAuthentication_rejected :: "js_error \<Rightarrow> nav_system \<Rightarrow> nav_system" where
  "handleAuthentication_rejected err s =
     s\<lparr>ui := (ui s)\<lparr>error := Some (case err of JsError message \<Rightarrow> message
                                                | JsOther \<Rightarrow> ''Authentication failed''),
                      authenticated := False,
                      loading := False\<rparr>\<rparr>"

definition handleAuthentication_granted :: "nav_system \<Rightarrow> nav_system" where
  "handleAuthentication_granted s =
     loadFiles_begin ''root'' (s\<lparr>ui := (ui s)\<lparr>authenticated := True\<rparr>\<rparr>)"

text \<open>
  What can happen to the component: a folder is entered, a breadcrumb is clicked, the
  effect of line 33 reloads the current folder, a listing that is in flight settles, or
  the authentication handler starts, is rejected or is granted the token. A listing of
  folder \<open>f\<close> that succeeds delivers \<open>drive f\<close>: the files of the first page (at most
  100 children of \<open>f\<close>, folders first, by name) that the Drive of the user returns, taken
  not to change during the session. Settling a listing that is not in flight does
  nothing. The events are not restricted to
  the orders the rendered page allows: a property of every run is a property of the runs
  of the page.
\<close>

datatype event =
    EnterFolder DriveFile
  | JumpToBreadcrumb nat
  | Reload
  | Succeed nat
  | Fail nat js_error
  | AuthBegin
  | AuthRejected js_error
  | AuthGranted

definition settle :: "nat \<Rightarrow> (string \<Rightarrow> js_error + DriveFile list) \<Rightarrow> nav_system \<Rightarrow> nav_system" where
  "settle rid outcome s =
     (case map_of (inflight s) rid of
        None \<Rightarrow> s
      | Some folderId \<Rightarrow>
          s\<lparr>ui := loadFiles_settle (outcome folderId) (ui s),
            inflight := filter (\<lambda>p. fst p \<noteq> rid) (inflight s)\<rparr>)"

fun nav_step :: "(string \<Rightarrow> DriveFile list) \<Rightarrow> event \<Rightarrow> nav_system \<Rightarrow> nav_system" where
  "nav_step drive (EnterFolder folder) s = handleFolderClick folder s"
| "nav_step drive (JumpToBreadcrumb index) s = handleBreadcrumbClick index s"
| "nav_step drive Reload s = loadFiles_begin (currentFolderId (ui s)) s"
| "nav_step drive (Succeed rid) s = settle rid (\<lambda>folderId. Inr (drive folderId)) s"
| "nav_step drive (Fail rid err) s = settle rid (\<lambda>folderId. Inl err) s"
| "nav_step drive AuthBegin s = handleAuthentication_begin s"
| "nav_step drive (AuthRejected err) s = handleAuthentication_rejected err s"
| "nav_step drive AuthGranted s = handleAuthentication_granted s"

definition nav_run :: "(string \<Rightarrow> DriveFile list) \<Rightarrow> event list \<Rightarrow> nav_system \<Rightarrow> nav_system" where
  "nav_run drive evs s = fold (nav_step drive) evs s"

text \<open>The navigation invariant of the data model.\<close>

definition nav_invariant :: "browser \<Rightarrow> bool" where
  "nav_invariant b =
     (breadcrumb b \<noteq> [] \<and> hd (breadcrumb b) = root_item
        \<and> id_item (last (breadcrumb b)) = currentFolderId b)"

text \<open>
  Listings are numbered in the order they are started: every listing in flight has a
  number below the count of listings issued.
\<close>

definition ids_bounded :: "nav_system \<Rightarrow> bool" where
  "ids_bounded s = (\<forall>p \<in> set (inflight s). fst p < issued s)"

text \<open>
  The events that change or reload the current folder, and the events that settle a
  listing other than a given one.
\<close>

fun is_navigation :: "event \<Rightarrow> bool" where
  "is_navigation (EnterFolder folder) = True"
| "is_navigation (JumpToBreadcrumb index) = True"
| "is_navigation Reload = True"
| "is_navigation _ = False"

fun settles_other :: "nat \<Rightarrow> event \<Rightarrow> bool" where
  "settles_other rid (Succeed r) = (r \<noteq> rid)"
| "settles_other rid (Fail r err) = (r \<noteq> rid)"
| "settles_other rid _ = False"

text \<open>A small Drive used in the examples: a folder A under the root, a picture inside it.\<close>

definition folderA :: DriveFile where
  "folderA = \<lparr>id_file = ''A'', name_file = ''Album'', mimeType = FOLDER_MIME_TYPE\<rparr>"

definition picture :: DriveFile where
  "picture = \<lparr>id_file = ''P'', name_file = ''p.png'', mimeType = ''image/png''\<rparr>"

definition textNote :: DriveFile where
  "textNote = \<lparr>id_file = ''N'', name_file = ''notes.txt'', mimeType = ''text/plain''\<rparr>"

definition example_drive :: "string \<Rightarrow> DriveFile list" where
  "example_drive folderId =
     (if folderId = ''root'' then [folderA, textNote]
      else if folderId = ''A'' then [picture]
      else [])"

text \<open>
  The service object as its field initialisers leave it, for a given
  \<^verbatim>\<open>GOOGLE_CLIENT_ID\<close> (the empty string when the variable is unset).
\<close>

definition new_service :: "string \<Rightarrow> GoogleDriveAuthService" where
  "new_service clientId =
     \<lparr>accessToken = None, tokenExpiry = None, CLIENT_ID = clientId,
      tokenClient = False, prompts = 0\<rparr>"

text \<open>
  Values used in the examples: a granted and a denied consent, a service holding a token
  that expires at 3600000, an endpoint that answers every request with a successful
  response whose body has no files field, and one whose successful responses have the
  body null.
\<close>

definition granted :: GoogleAuthResponse where
  "granted = \<lparr>resp_error = None, access_token = ''ya29.a0'', expires_in = 3600\<rparr>"

definition denied :: GoogleAuthResponse where
  "denied = \<lparr>resp_error = Some ''access_denied'', access_token = [], expires_in = 0\<rparr>"

definition signed_in :: GoogleDriveAuthService where
  "signed_in =
     \<lparr>accessToken = Some ''ya29.a0'', tokenExpiry = Some 3600000, CLIENT_ID = ''client-1'',
      tokenClient = True, prompts = 1\<rparr>"

definition ok_without_files :: http_response where
  "ok_without_files =
     \<lparr>ok = True, statusText = ''OK'',
      json = Resolved (JObject [(''kind'', JString ''drive#fileList'')])\<rparr>"

definition ok_null_body :: http_response where
  "ok_null_body = \<lparr>ok = True, statusText = ''OK'', json = Resolved JNull\<rparr>"

definition always_ok :: "string \<Rightarrow> string option \<Rightarrow> string \<Rightarrow> http_response settled" where
  "always_ok folderId pageToken token = Resolved ok_without_files"

definition always_null :: "string \<Rightarrow> string option \<Rightarrow> string \<Rightarrow> http_response settled" where
  "always_null folderId pageToken token = Resolved ok_null_body"

section \<open>Properties of the compositor\<close>

subsection \<open>Canvas sizing\<close>

lemma Math_round_is_round: "Math_round v = of_int (round v)"
  by (simp add: Math_round_def round_def)

lemma Math_round_le_nat:
  assumes "v \<le> real n"
  shows "Math_round v \<le> real n"
proof -
  have "round v \<le> round (real n)" using assms by (rule round_mono)
  also have "round (real n) = int n" by (metis of_int_of_nat_eq round_of_int)
  finally have "(of_int (round v) :: real) \<le> of_int (int n)" by (simp only: of_int_le_iff)
  then show ?thesis by (simp add: Math_round_is_round)
qed

lemma short_side_le:
  assumes "0 < b" "a \<le> b"
  shows "Math_round ((real m * real a) / real b) \<le> real m"
proof -
  have "real m * real a \<le> real m * real b"
    using assms by (simp add: mult_left_mono)
  then have "(real m * real a) / real b \<le> real m"
    using assms by (simp add: divide_le_eq)
  then show ?thesis by (rule Math_round_le_nat)
qed

text \<open>
  C1. For positive integer terms W:H and a positive integer M the canvas has width M and
  height round(M * H / W) when W >= H, and height M and width round(M * W / H) otherwise;
  the longer side is M exactly and the shorter side is round(M * min W H / max W H).
\<close>

theorem canvas_size_rule:
  assumes "0 < W" "0 < H" "0 < M"
  shows "(W \<ge> H \<longrightarrow> width (canvas_size W H M) = real M
            \<and> height (canvas_size W H M) = of_int (round (real M * real H / real W)))
       \<and> (\<not> W \<ge> H \<longrightarrow> height (canvas_size W H M) = real M
            \<and> width (canvas_size W H M) = of_int (round (real M * real W / real H)))
       \<and> max (width (canvas_size W H M)) (height (canvas_size W H M)) = real M
       \<and> min (width (canvas_size W H M)) (height (canvas_size W H M))
            = of_int (round (real M * real (min W H) / real (max W H)))"
proof (cases "W \<ge> H")
  case True
  have le: "Math_round ((real M * real H) / real W) \<le> real M"
    using assms True by (intro short_side_le) simp_all
  from True have mm: "min W H = H" "max W H = W" by simp_all
  show ?thesis
    using True le by (simp add: canvas_size_def Math_round_is_round mm)
next
  case False
  then have HW: "W \<le> H" by simp
  have le: "Math_round ((real M * real W) / real H) \<le> real M"
    using assms HW by (intro short_side_le) simp_all
  from False have mm: "min W H = W" "max W H = H" by simp_all
  show ?thesis
    using False le by (simp add: canvas_size_def Math_round_is_round mm)
qed

theorem canvas_size_rule_witness:
  "width (canvas_size 16 9 1024) = 1024 \<and> height (canvas_size 16 9 1024) = 576
   \<and> max (width (canvas_size 16 9 1024)) (height (canvas_size 16 9 1024)) = 1024
   \<and> min (width (canvas_size 16 9 1024)) (height (canvas_size 16 9 1024)) = 576"
  using canvas_size_rule [of 16 9 1024] by simp

subsection \<open>Rounding to a double\<close>

lemma round_even_err: "\<bar>of_int (round_even v) - v\<bar> \<le> 1 / 2"
proof -
  have "of_int \<lfloor>v\<rfloor> \<le> v" "v < of_int \<lfloor>v\<rfloor> + 1" by linarith+
  then show ?thesis by (auto simp: round_even_def Let_def)
qed

lemma round_even_sign:
  shows "0 \<le> v \<Longrightarrow> 0 \<le> round_even v" and "v \<le> 0 \<Longrightarrow> round_even v \<le> 0"
proof -
  assume "0 \<le> v"
  then have "0 \<le> \<lfloor>v\<rfloor>" by simp
  then show "0 \<le> round_even v" by (auto simp: round_even_def Let_def)
next
  assume v: "v \<le> 0"
  show "round_even v \<le> 0"
  proof (cases "v = 0")
    case True
    then show ?thesis by (simp add: round_even_def)
  next
    case False
    then have "v < 0" using v by simp
    then have f: "\<lfloor>v\<rfloor> \<le> -1" by (simp add: floor_le_iff)
    have "of_int \<lfloor>v\<rfloor> \<le> v" by linarith
    show ?thesis
    proof (cases "\<lfloor>v\<rfloor> = -1")
      case True
      then have "v - of_int \<lfloor>v\<rfloor> = v + 1" by simp
      then show ?thesis using True \<open>v < 0\<close> by (auto simp: round_even_def Let_def)
    next
      case False
      then have "\<lfloor>v\<rfloor> \<le> -2" using f by linarith
      then show ?thesis by (auto simp: round_even_def Let_def)
    qed
  qed
qed

lemma double_eval:
  assumes "2 powr of_int k \<le> \<bar>v\<bar>" "\<bar>v\<bar> < 2 powr (of_int k + 1)"
  shows "double v = of_int (round_even (v / 2 powr (of_int k - 52))) * 2 powr (of_int k - 52)"
proof -
  have "0 < \<bar>v\<bar>" using assms(1) by (smt (verit) powr_gt_zero)
  then have nz: "v \<noteq> 0" by auto
  have "\<lfloor>log 2 \<bar>v\<bar>\<rfloor> = k"
    using assms \<open>0 < \<bar>v\<bar>\<close> by (subst floor_log_eq_powr_iff) simp_all
  then show ?thesis using nz by (simp add: double_def Let_def)
qed

lemma double_err: "\<bar>double v - v\<bar> \<le> \<bar>v\<bar> / 2 ^ 53"
proof (cases "v = 0")
  case True
  then show ?thesis by (simp add: double_def)
next
  case False
  define e where "e = \<lfloor>log 2 \<bar>v\<bar>\<rfloor>"
  define q :: real where "q = 2 powr (of_int e - 52)"
  have qpos: "0 < q" by (simp add: q_def)
  have lo: "2 powr of_int e \<le> \<bar>v\<bar>"
    using False floor_log_eq_powr_iff [of "\<bar>v\<bar>" 2 e] by (simp add: e_def)
  have d: "double v = of_int (round_even (v / q)) * q"
    using False by (simp add: double_def Let_def e_def q_def)
  have "double v - v = (of_int (round_even (v / q)) - v / q) * q"
    using qpos by (simp add: d algebra_simps)
  then have "\<bar>double v - v\<bar> = \<bar>of_int (round_even (v / q)) - v / q\<bar> * q"
    using qpos by (simp add: abs_mult)
  also have "\<dots> \<le> (1 / 2) * q"
    using round_even_err [of "v / q"] qpos by (intro mult_right_mono) simp_all
  also have "(1 / 2) * q = 2 powr of_int e / 2 ^ 53"
    by (simp add: q_def powr_diff)
  also have "\<dots> \<le> \<bar>v\<bar> / 2 ^ 53"
    using lo by (simp add: divide_right_mono)
  finally show ?thesis .
qed

lemma double_sign:
  shows "0 \<le> v \<Longrightarrow> 0 \<le> double v" and "v \<le> 0 \<Longrightarrow> double v \<le> 0"
proof -
  assume "0 \<le> v"
  then have "0 \<le> round_even (v / 2 powr (of_int \<lfloor>log 2 \<bar>v\<bar>\<rfloor> - 52))"
    by (intro round_even_sign) simp
  then show "0 \<le> double v" by (simp add: double_def Let_def)
next
  assume "v \<le> 0"
  then have "round_even (v / 2 powr (of_int \<lfloor>log 2 \<bar>v\<bar>\<rfloor> - 52)) \<le> 0"
    by (intro round_even_sign) (simp add: divide_nonpos_pos)
  then show "double v \<le> 0"
    by (simp add: double_def Let_def mult_nonpos_nonneg)
qed

lemma double_upper: "0 \<le> v \<Longrightarrow> double v \<le> v * (1 + 1 / 2 ^ 53)"
  using double_err [of v] by (simp add: algebra_simps abs_if split: if_splits)

lemma double_lower: "v \<le> 0 \<Longrightarrow> v * (1 + 1 / 2 ^ 53) \<le> double v"
  using double_err [of v] by (simp add: algebra_simps abs_if split: if_splits)

lemmas double_simps = round_even_def Let_def powr_minus_divide

subsection \<open>Contain fit and centring\<close>

lemma scaled_within:
  assumes "0 \<le> c" "0 < s" "0 \<le> r" "r \<le> double (c / s)"
  shows "0 \<le> double (s * r)" and "double (s * r) \<le> c * (1 + 1 / 2 ^ 51)"
proof -
  have nn: "0 \<le> s * r" using assms by simp
  then show "0 \<le> double (s * r)" by (rule double_sign)
  have "0 \<le> c / s" using assms by simp
  then have "double (c / s) \<le> (c / s) * (1 + 1 / 2 ^ 53)" by (rule double_upper)
  then have "r \<le> (c / s) * (1 + 1 / 2 ^ 53)" using assms(4) by simp
  then have "s * r \<le> s * ((c / s) * (1 + 1 / 2 ^ 53))"
    using assms(2) by (intro mult_left_mono) simp_all
  also have "\<dots> = c * (1 + 1 / 2 ^ 53)" using assms(2) by simp
  finally have 1: "s * r \<le> c * (1 + 1 / 2 ^ 53)" .
  have 2: "double (s * r) \<le> (s * r) * (1 + 1 / 2 ^ 53)" using nn by (rule double_upper)
  show "double (s * r) \<le> c * (1 + 1 / 2 ^ 51)" using 1 2 assms(1) by simp
qed

lemma centred_within:
  assumes "0 \<le> c" "0 \<le> w" "w \<le> c * (1 + 1 / 2 ^ 51)"
  shows "- (c / 2 ^ 51) \<le> double (double (c - w) / 2)"
    and "double (double (c - w) / 2) + w \<le> c * (1 + 1 / 2 ^ 51)"
    and "\<bar>double (double (c - w) / 2) - (c - w) / 2\<bar> \<le> \<bar>c - w\<bar> / 2 ^ 52"
proof -
  define d where "d = c - w"
  define dd where "dd = double d"
  define x where "x = double (dd / 2)"
  have e1: "\<bar>dd - d\<bar> \<le> \<bar>d\<bar> / 2 ^ 53" unfolding dd_def by (rule double_err)
  have e2: "\<bar>x - dd / 2\<bar> \<le> \<bar>dd / 2\<bar> / 2 ^ 53" unfolding x_def by (rule double_err)
  have lo: "- (c / 2 ^ 51) \<le> x \<and> x + w \<le> c * (1 + 1 / 2 ^ 51)"
  proof (cases "0 \<le> d")
    case True
    then have "0 \<le> dd" unfolding dd_def by (rule double_sign)
    then have "0 \<le> x" unfolding x_def by (intro double_sign) simp
    moreover have "x \<le> d" using e1 e2 True \<open>0 \<le> dd\<close> by (simp add: abs_if split: if_splits)
    ultimately show ?thesis using assms by (simp add: d_def)
  next
    case False
    then have neg: "d \<le> 0" by simp
    then have "dd \<le> 0" unfolding dd_def by (rule double_sign)
    then have "x \<le> 0" unfolding x_def by (intro double_sign) simp
    moreover have "d \<le> x"
      using e1 e2 neg \<open>dd \<le> 0\<close> by (simp add: abs_if split: if_splits)
    moreover have "- (c / 2 ^ 51) \<le> d" using assms by (simp add: d_def algebra_simps)
    ultimately show ?thesis using assms by (simp add: d_def)
  qed
  show "- (c / 2 ^ 51) \<le> double (double (c - w) / 2)"
    using lo by (simp add: x_def dd_def d_def)
  show "double (double (c - w) / 2) + w \<le> c * (1 + 1 / 2 ^ 51)"
    using lo by (simp add: x_def dd_def d_def)
  have "\<bar>x - d / 2\<bar> \<le> \<bar>d\<bar> / 2 ^ 52"
    using e1 e2 by (simp add: abs_if split: if_splits)
  then show "\<bar>double (double (c - w) / 2) - (c - w) / 2\<bar> \<le> \<bar>c - w\<bar> / 2 ^ 52"
    by (simp add: x_def dd_def d_def)
qed

lemma generate_canvas_16_9: "generate_canvas R_16_9 = \<lparr>width = 1024, height = 576\<rparr>"
  by (simp add: generate_canvas_def canvas_size_def MAX_DIMENSION_const_def Math_round_def)

lemma double_0 [simp]: "double 0 = 0"
  by (simp add: double_def)

lemma contain_fit_800:
  "contain_fit \<lparr>width = 1024, height = 576\<rparr> \<lparr>width = 800, height = 800\<rparr>
     = \<lparr>ratio = double (72 / 100), scaledWidth = 576, scaledHeight = 576,
        drawX = 224, drawY = 0\<rparr>"
proof -
  have h: "double (1024 / 800) = 5764607523034235 / 4503599627370496"
    using double_eval [of 0 "1024 / 800"] by (simp add: double_simps)
  have v: "double (576 / 800) = 3242591731706757 / 4503599627370496"
    using double_eval [of "-1" "576 / 800"] by (simp add: double_simps)
  have v': "double (72 / 100) = 3242591731706757 / 4503599627370496"
    using double_eval [of "-1" "72 / 100"] by (simp add: double_simps)
  have m: "min (5764607523034235 / 4503599627370496) (3242591731706757 / 4503599627370496)
      = (3242591731706757 / 4503599627370496 :: real)" by simp
  have s: "double (800 * (3242591731706757 / 4503599627370496)) = 576"
    using double_eval [of 9 "800 * (3242591731706757 / 4503599627370496)"]
    by (simp add: double_simps)
  have dx: "double (1024 - 576) = 448"
    using double_eval [of 8 "1024 - 576"] by (simp add: double_simps)
  have x: "double (448 / 2) = 224"
    using double_eval [of 7 "448 / 2"] by (simp add: double_simps)
  have dy: "double (576 - 576) = 0" by simp
  have y: "double (0 / 2) = 0" by simp
  show ?thesis
    unfolding contain_fit_def Let_def size2d.select_convs h v v' m s dx x dy y ..
qed

lemma contain_fit_561:
  "contain_fit \<lparr>width = 1024, height = 576\<rparr> \<lparr>width = 561, height = 561\<rparr>
     = \<lparr>ratio = 2312008364853303 / 2251799813685248,
        scaledWidth = 576 + 1 / 2 ^ 43, scaledHeight = 576 + 1 / 2 ^ 43,
        drawX = 224 - 1 / 2 ^ 44, drawY = - (1 / 2 ^ 44)\<rparr>"
proof -
  have h: "double (1024 / 561) = 2055118546536269 / 1125899906842624"
    using double_eval [of 0 "1024 / 561"] by (simp add: double_simps)
  have v: "double (576 / 561) = 2312008364853303 / 2251799813685248"
    using double_eval [of 0 "576 / 561"] by (simp add: double_simps)
  have m: "min (2055118546536269 / 1125899906842624) (2312008364853303 / 2251799813685248)
      = (2312008364853303 / 2251799813685248 :: real)" by simp
  have s: "double (561 * (2312008364853303 / 2251799813685248)) = 576 + 1 / 2 ^ 43"
    using double_eval [of 9 "561 * (2312008364853303 / 2251799813685248)"]
    by (simp add: double_simps)
  have dx: "double (1024 - (576 + 1 / 2 ^ 43)) = 448 - 1 / 2 ^ 43"
    using double_eval [of 8 "1024 - (576 + 1 / 2 ^ 43)"] by (simp add: double_simps)
  have x: "double ((448 - 1 / 2 ^ 43) / 2) = 224 - 1 / 2 ^ 44"
    using double_eval [of 7 "(448 - 1 / 2 ^ 43) / 2"] by (simp add: double_simps)
  have dy: "double (576 - (576 + 1 / 2 ^ 43)) = - (1 / 2 ^ 43)"
    using double_eval [of "-43" "576 - (576 + 1 / 2 ^ 43)"] by (simp add: double_simps)
  have y: "double (- (1 / 2 ^ 43) / 2) = - (1 / 2 ^ 44)"
    using double_eval [of "-44" "- (1 / 2 ^ 43) / 2"] by (simp add: double_simps)
  show ?thesis
    unfolding contain_fit_def Let_def size2d.select_convs h v m s dx x dy y ..
qed

lemma canvas_size_nonneg:
  "0 \<le> width (canvas_size W H M)" "0 \<le> height (canvas_size W H M)"
  by (simp_all add: canvas_size_def Math_round_def)

text \<open>
  The claim C2 (the scaled image lies inside the canvas) does not hold in double
  arithmetic: for the ratio 16:9 and a 561 x 561 source the scaled height is one unit in
  the last place above the canvas height 576, and drawY is negative.
\<close>

theorem contain_fit_counterexample:
  "height (generate_canvas R_16_9) = 576
   \<and> scaledHeight (contain_fit (generate_canvas R_16_9) \<lparr>width = 561, height = 561\<rparr>)
       = 576 + 1 / 2 ^ 43
   \<and> drawY (contain_fit (generate_canvas R_16_9) \<lparr>width = 561, height = 561\<rparr>)
       = - (1 / 2 ^ 44)
   \<and> drawY (contain_fit (generate_canvas R_16_9) \<lparr>width = 561, height = 561\<rparr>) < 0
   \<and> drawY (contain_fit (generate_canvas R_16_9) \<lparr>width = 561, height = 561\<rparr>)
       + scaledHeight (contain_fit (generate_canvas R_16_9) \<lparr>width = 561, height = 561\<rparr>)
       > height (generate_canvas R_16_9)"
  by (simp add: generate_canvas_16_9 contain_fit_561)

text \<open>
  C2, amended. For a source image of positive natural width and height and a canvas
  produced by the sizing rule (sizes below 2^32, as the attributes of the image and of
  the canvas hold them, and the product of the sizing rule below 2^52), in double
  arithmetic: the scale is the smaller of the rounded quotients canvasWidth / sourceWidth
  and canvasHeight / sourceHeight; the scaled sides are the rounded products; drawX and
  drawY are the rounded halves of the rounded differences, and differ from (canvasWidth -
  scaledWidth) / 2 and (canvasHeight - scaledHeight) / 2 by at most 2^-52 times the
  difference halved there; the scaled image lies inside the canvas enlarged by the
  relative margin 2^-51 on every side. For the ratio 16:9, the bound 1024 and an 800 x 800 source
  the canvas is 1024 x 576, the scale the double nearest to 0.72, the scaled image
  576 x 576, drawX 224 and drawY 0.
\<close>

theorem contain_fit_rule:
  assumes "0 < sw" "sw < 2 ^ 32" "0 < sh" "sh < 2 ^ 32"
    and "0 < W" "0 < H" "0 < M" "M < 2 ^ 32" "M * max W H < 2 ^ 52"
  defines "img \<equiv> \<lparr>width = real sw, height = real sh\<rparr>"
  defines "c \<equiv> canvas_size W H M"
  defines "p \<equiv> contain_fit c img"
  shows "ratio p = min (double (width c / width img)) (double (height c / height img))
       \<and> scaledWidth p = double (width img * ratio p)
       \<and> scaledHeight p = double (height img * ratio p)
       \<and> drawX p = double (double (width c - scaledWidth p) / 2)
       \<and> drawY p = double (double (height c - scaledHeight p) / 2)
       \<and> \<bar>drawX p - (width c - scaledWidth p) / 2\<bar> \<le> \<bar>width c - scaledWidth p\<bar> / 2 ^ 52
       \<and> \<bar>drawY p - (height c - scaledHeight p) / 2\<bar> \<le> \<bar>height c - scaledHeight p\<bar> / 2 ^ 52
       \<and> - (width c / 2 ^ 51) \<le> drawX p
       \<and> drawX p + scaledWidth p \<le> width c * (1 + 1 / 2 ^ 51)
       \<and> - (height c / 2 ^ 51) \<le> drawY p
       \<and> drawY p + scaledHeight p \<le> height c * (1 + 1 / 2 ^ 51)
       \<and> generate_canvas R_16_9 = \<lparr>width = 1024, height = 576\<rparr>
       \<and> contain_fit (generate_canvas R_16_9) \<lparr>width = 800, height = 800\<rparr>
            = \<lparr>ratio = double (72 / 100), scaledWidth = 576, scaledHeight = 576,
               drawX = 224, drawY = 0\<rparr>"
proof -
  have pos: "0 < width img" "0 < height img" using assms by (simp_all add: img_def)
  have cnn: "0 \<le> width c" "0 \<le> height c" unfolding c_def by (rule canvas_size_nonneg)+
  have defs: "ratio p = min (double (width c / width img)) (double (height c / height img))"
    "scaledWidth p = double (width img * ratio p)"
    "scaledHeight p = double (height img * ratio p)"
    "drawX p = double (double (width c - scaledWidth p) / 2)"
    "drawY p = double (double (height c - scaledHeight p) / 2)"
    by (simp_all add: p_def contain_fit_def Let_def)
  have "0 \<le> double (width c / width img)" "0 \<le> double (height c / height img)"
    using pos cnn by (intro double_sign; simp)+
  then have r: "0 \<le> ratio p" "ratio p \<le> double (width c / width img)"
    "ratio p \<le> double (height c / height img)"
    by (simp_all add: defs(1))
  have w: "0 \<le> scaledWidth p" "scaledWidth p \<le> width c * (1 + 1 / 2 ^ 51)"
    unfolding defs(2) using cnn(1) pos(1) r(1,2) by (rule scaled_within)+
  have h: "0 \<le> scaledHeight p" "scaledHeight p \<le> height c * (1 + 1 / 2 ^ 51)"
    unfolding defs(3) using cnn(2) pos(2) r(1,3) by (rule scaled_within)+
  note cx = centred_within [OF cnn(1) w, folded defs(4)]
  note cy = centred_within [OF cnn(2) h, folded defs(5)]
  show ?thesis
    using defs cx cy generate_canvas_16_9 contain_fit_800 by simp
qed

theorem contain_fit_rule_witness:
  "contain_fit (canvas_size 4 3 1024) \<lparr>width = 512, height = 768\<rparr>
     = \<lparr>ratio = 1, scaledWidth = 512, scaledHeight = 768, drawX = 256, drawY = 0\<rparr>
   \<and> - (1024 / 2 ^ 51) \<le> (256 :: real) \<and> (256 :: real) + 512 \<le> 1024 * (1 + 1 / 2 ^ 51)"
proof -
  have c: "canvas_size 4 3 1024 = \<lparr>width = 1024, height = 768\<rparr>"
    by (simp add: canvas_size_def Math_round_def)
  have h: "double (1024 / 512) = 2"
    using double_eval [of 1 "1024 / 512"] by (simp add: double_simps)
  have v: "double (768 / 768) = 1"
    using double_eval [of 0 "768 / 768"] by (simp add: double_simps)
  have m: "min 2 1 = (1 :: real)" by simp
  have s1: "double (512 * 1) = 512"
    using double_eval [of 9 "512 * 1"] by (simp add: double_simps)
  have s2: "double (768 * 1) = 768"
    using double_eval [of 9 "768 * 1"] by (simp add: double_simps)
  have dx: "double (1024 - 512) = 512"
    using double_eval [of 9 "1024 - 512"] by (simp add: double_simps)
  have x: "double (512 / 2) = 256"
    using double_eval [of 8 "512 / 2"] by (simp add: double_simps)
  have dy: "double (768 - 768) = 0" by simp
  have y: "double (0 / 2) = 0" by simp
  have f: "contain_fit \<lparr>width = 1024, height = 768\<rparr> \<lparr>width = 512, height = 768\<rparr>
     = \<lparr>ratio = 1, scaledWidth = 512, scaledHeight = 768, drawX = 256, drawY = 0\<rparr>"
    unfolding contain_fit_def Let_def size2d.select_convs h v m s1 s2 dx x dy y ..
  show ?thesis
    using contain_fit_rule [of 512 768 4 3 1024] by (simp add: c f)
qed

section \<open>Properties of the classification\<close>

lemma startsWith_iff: "startsWith s p \<longleftrightarrow> (\<exists>rest. s = p @ rest)"
proof
  assume "startsWith s p"
  then have "s = p @ drop (length p) s"
    by (metis append_take_drop_id startsWith_def)
  then show "\<exists>rest. s = p @ rest" ..
next
  assume "\<exists>rest. s = p @ rest"
  then show "startsWith s p" by (auto simp: startsWith_def)
qed

lemma folder_not_image: "isFolder file \<Longrightarrow> \<not> isImageFile file"
  by (simp add: isFolder_def isImageFile_def startsWith_def FOLDER_MIME_TYPE_def)

text \<open>
  C8. An entry is classified as a folder iff its mime type is the Drive folder marker, and
  as an image iff its mime type begins with image/; so an entry whose mime type is the
  folder marker is never an image, and an entry of mime type image/png is always an
  image.
\<close>

theorem classification_rule:
  "(isFolder file \<longleftrightarrow> mimeType file = ''application/vnd.google-apps.folder'')
   \<and> (isImageFile file \<longleftrightarrow> (\<exists>rest. mimeType file = ''image/'' @ rest))
   \<and> (mimeType file = ''application/vnd.google-apps.folder''
        \<longrightarrow> isFolder file \<and> \<not> isImageFile file)
   \<and> (mimeType file = ''image/png'' \<longrightarrow> isImageFile file \<and> \<not> isFolder file)"
proof -
  have f: "isFolder file \<longleftrightarrow> mimeType file = ''application/vnd.google-apps.folder''"
    by (simp add: isFolder_def FOLDER_MIME_TYPE_def)
  have i: "isImageFile file \<longleftrightarrow> (\<exists>rest. mimeType file = ''image/'' @ rest)"
    unfolding isImageFile_def by (rule startsWith_iff)
  have p: "mimeType file = ''image/png'' \<Longrightarrow> isImageFile file \<and> \<not> isFolder file"
    by (simp add: isImageFile_def startsWith_def isFolder_def FOLDER_MIME_TYPE_def)
  show ?thesis using f i p folder_not_image by blast
qed

theorem classification_rule_witness:
  "isFolder folderA \<and> \<not> isImageFile folderA \<and> isImageFile picture \<and> \<not> isFolder picture
   \<and> \<not> isFolder textNote \<and> \<not> isImageFile textNote"
  using classification_rule [of folderA] classification_rule [of picture]
    classification_rule [of textNote]
  by (simp add: folderA_def picture_def textNote_def FOLDER_MIME_TYPE_def)

subsection \<open>Selecting an entry\<close>




section \<open>Properties of the navigator\<close>

subsection \<open>The navigation invariant\<close>

lemma ui_loadFiles_begin [simp]:
  "breadcrumb (ui (loadFiles_begin f s)) = breadcrumb (ui s)"
  "currentFolderId (ui (loadFiles_begin f s)) = currentFolderId (ui s)"
  "files (ui (loadFiles_begin f s)) = files (ui s)"
  by (simp_all add: loadFiles_begin_def)

lemma nav_loadFiles_settle [simp]:
  "breadcrumb (loadFiles_settle outcome b) = breadcrumb b"
  "currentFolderId (loadFiles_settle outcome b) = currentFolderId b"
  by (simp_all add: loadFiles_settle_def split: sum.splits)

lemma nav_settle [simp]:
  "breadcrumb (ui (settle rid outcome s)) = breadcrumb (ui s)"
  "currentFolderId (ui (settle rid outcome s)) = currentFolderId (ui s)"
  by (simp_all add: settle_def split: option.splits)

lemma nav_handleFolderClick:
  "breadcrumb (ui (handleFolderClick folder s))
     = breadcrumb (ui s) @ [\<lparr>id_item = id_file folder, name_item = name_file folder\<rparr>]"
  "currentFolderId (ui (handleFolderClick folder s)) = id_file folder"
  by (simp_all add: handleFolderClick_def)

lemma nav_handleBreadcrumbClick:
  assumes "breadcrumb (ui s) \<noteq> []"
  shows "breadcrumb (ui (handleBreadcrumbClick index s)) = take (Suc index) (breadcrumb (ui s))"
    and "currentFolderId (ui (handleBreadcrumbClick index s))
           = id_item (last (take (Suc index) (breadcrumb (ui s))))"
proof -
  let ?new = "take (Suc index) (breadcrumb (ui s))"
  from assms have ne: "?new \<noteq> []" by simp
  then obtain t ts where r: "rev ?new = t # ts" by (cases "rev ?new") simp_all
  have t: "t = last ?new"
    using r ne by (metis last_rev list.sel(1) rev_rev_ident hd_rev)
  have unf: "handleBreadcrumbClick index s =
      loadFiles_begin (id_item t)
        (s\<lparr>ui := (ui s)\<lparr>breadcrumb := ?new, currentFolderId := id_item t\<rparr>\<rparr>)"
    by (simp add: handleBreadcrumbClick_def Let_def r)
  show "breadcrumb (ui (handleBreadcrumbClick index s)) = ?new"
    by (simp add: unf)
  show "currentFolderId (ui (handleBreadcrumbClick index s)) = id_item (last ?new)"
    by (simp add: unf t)
qed

lemma nav_invariant_step:
  assumes "nav_invariant (ui s)"
  shows "nav_invariant (ui (nav_step drive ev s))"
proof (cases ev)
  case (EnterFolder folder)
  then show ?thesis using assms by (simp add: nav_invariant_def nav_handleFolderClick)
next
  case (JumpToBreadcrumb index)
  from assms have ne: "breadcrumb (ui s) \<noteq> []" by (simp add: nav_invariant_def)
  have "hd (take (Suc index) (breadcrumb (ui s))) = hd (breadcrumb (ui s))"
    using ne by (cases "breadcrumb (ui s)") simp_all
  then show ?thesis
    using assms ne JumpToBreadcrumb
    by (simp add: nav_invariant_def nav_handleBreadcrumbClick [OF ne])
next
  case Reload
  then show ?thesis using assms by (simp add: nav_invariant_def)
next
  case (Succeed rid)
  then show ?thesis using assms by (simp add: nav_invariant_def)
next
  case (Fail rid err)
  then show ?thesis using assms by (simp add: nav_invariant_def)
next
  case AuthBegin
  then show ?thesis using assms by (simp add: nav_invariant_def handleAuthentication_begin_def)
next
  case (AuthRejected err)
  then show ?thesis
    using assms by (simp add: nav_invariant_def handleAuthentication_rejected_def)
next
  case AuthGranted
  then show ?thesis
    using assms by (simp add: nav_invariant_def handleAuthentication_granted_def)
qed

lemma nav_invariant_run:
  "nav_invariant (ui s) \<Longrightarrow> nav_invariant (ui (nav_run drive evs s))"
  unfolding nav_run_def
  by (induction evs arbitrary: s) (simp_all add: nav_invariant_step)

lemma nav_invariant_initial: "nav_invariant (ui initial_system)"
  by (simp add: nav_invariant_def initial_system_def initial_browser_def root_item_def)

text \<open>
  C5. After any finite sequence of actions from the initial state (folders entered,
  breadcrumbs clicked, reloads, listings settling in any order) the breadcrumb path is not
  empty, its first element is the root sentinel and the id of its last element is the
  current folder.
\<close>

theorem navigation_invariant:
  "breadcrumb (ui (nav_run drive evs initial_system)) \<noteq> []
   \<and> hd (breadcrumb (ui (nav_run drive evs initial_system))) = root_item
   \<and> id_item (last (breadcrumb (ui (nav_run drive evs initial_system))))
       = currentFolderId (ui (nav_run drive evs initial_system))"
  using nav_invariant_run [OF nav_invariant_initial, of drive evs]
  by (simp add: nav_invariant_def)


lemmas nav_eval =
  nav_run_def handleFolderClick_def handleBreadcrumbClick_def loadFiles_begin_def
  loadFiles_settle_def settle_def initial_system_def initial_browser_def root_item_def
  example_drive_def folderA_def picture_def textNote_def FOLDER_MIME_TYPE_def Let_def
  handleAuthentication_begin_def handleAuthentication_rejected_def
  handleAuthentication_granted_def

theorem navigation_invariant_witness:
  "breadcrumb (ui (nav_run example_drive
      [Reload, Succeed 0, EnterFolder folderA, EnterFolder picture, JumpToBreadcrumb 1]
      initial_system))
     = [root_item, \<lparr>id_item = ''A'', name_item = ''Album''\<rparr>]
   \<and> currentFolderId (ui (nav_run example_drive
      [Reload, Succeed 0, EnterFolder folderA, EnterFolder picture, JumpToBreadcrumb 1]
      initial_system)) = ''A''"
  using navigation_invariant [of example_drive
      "[Reload, Succeed 0, EnterFolder folderA, EnterFolder picture, JumpToBreadcrumb 1]"]
  by (simp add: nav_eval)

subsection \<open>A listing that fails\<close>

text \<open>
  The claim C3 (after an action whose listing fails the navigation state is the one before
  the action) does not hold: entering the folder A and seeing its listing fail leaves the
  path root, A and the current folder A.
\<close>

theorem failed_listing_counterexample:
  "breadcrumb (ui (nav_run example_drive [Reload, Succeed 0] initial_system)) = [root_item]
   \<and> currentFolderId (ui (nav_run example_drive [Reload, Succeed 0] initial_system)) = ''root''
   \<and> breadcrumb (ui (nav_run example_drive
         [Reload, Succeed 0, EnterFolder folderA, Fail 1 (JsError ''Failed to fetch files: Forbidden'')]
         initial_system))
       = [root_item, \<lparr>id_item = ''A'', name_item = ''Album''\<rparr>]
   \<and> currentFolderId (ui (nav_run example_drive
         [Reload, Succeed 0, EnterFolder folderA, Fail 1 (JsError ''Failed to fetch files: Forbidden'')]
         initial_system))
       = ''A''
   \<and> breadcrumb (ui (nav_run example_drive
         [Reload, Succeed 0, EnterFolder folderA, Fail 1 (JsError ''Failed to fetch files: Forbidden'')]
         initial_system))
       \<noteq> breadcrumb (ui (nav_run example_drive [Reload, Succeed 0] initial_system))
   \<and> currentFolderId (ui (nav_run example_drive
         [Reload, Succeed 0, EnterFolder folderA, Fail 1 (JsError ''Failed to fetch files: Forbidden'')]
         initial_system))
       \<noteq> currentFolderId (ui (nav_run example_drive [Reload, Succeed 0] initial_system))"
  by (simp add: nav_eval)

lemma settle_Succeed_files:
  "map_of (inflight s) rid = Some f \<Longrightarrow> files (ui (nav_step drive (Succeed rid) s)) = drive f"
  by (simp add: settle_def loadFiles_settle_def)

lemma settle_Fail_ui:
  assumes "map_of (inflight s) rid = Some f"
  shows "files (ui (nav_step drive (Fail rid err) s)) = files (ui s)"
    and "error (ui (nav_step drive (Fail rid err) s))
           = Some (case err of JsError message \<Rightarrow> message | JsOther \<Rightarrow> ''Failed to load files'')"
    and "loading (ui (nav_step drive (Fail rid err) s)) = False"
  using assms by (simp_all add: settle_def loadFiles_settle_def)

lemma inflight_handleFolderClick:
  "map_of (inflight (handleFolderClick folder s)) (issued s) \<noteq> None"
  by (simp add: handleFolderClick_def loadFiles_begin_def map_of_eq_None_iff)

text \<open>
  C3, amended. An action updates the breadcrumb path and the current folder at once,
  before its listing settles, and the listing it starts is in flight. A listing that
  settles, with success or with failure, changes neither; one that fails leaves the file
  list as it is, stores the error message and clears the loading flag.
\<close>

theorem navigation_applied_before_listing:
  "breadcrumb (ui (handleFolderClick folder s))
     = breadcrumb (ui s) @ [\<lparr>id_item = id_file folder, name_item = name_file folder\<rparr>]
   \<and> currentFolderId (ui (handleFolderClick folder s)) = id_file folder
   \<and> map_of (inflight (handleFolderClick folder s)) (issued s) \<noteq> None
   \<and> (breadcrumb (ui s) \<noteq> [] \<longrightarrow>
         breadcrumb (ui (handleBreadcrumbClick index s)) = take (Suc index) (breadcrumb (ui s))
       \<and> currentFolderId (ui (handleBreadcrumbClick index s))
           = id_item (last (take (Suc index) (breadcrumb (ui s)))))
   \<and> breadcrumb (ui (nav_step drive (Succeed rid) t)) = breadcrumb (ui t)
   \<and> currentFolderId (ui (nav_step drive (Succeed rid) t)) = currentFolderId (ui t)
   \<and> breadcrumb (ui (nav_step drive (Fail rid err) t)) = breadcrumb (ui t)
   \<and> currentFolderId (ui (nav_step drive (Fail rid err) t)) = currentFolderId (ui t)
   \<and> files (ui (nav_step drive (Fail rid err) t)) = files (ui t)
   \<and> (map_of (inflight t) rid \<noteq> None \<longrightarrow>
         error (ui (nav_step drive (Fail rid err) t))
           = Some (case err of JsError message \<Rightarrow> message | JsOther \<Rightarrow> ''Failed to load files'')
       \<and> \<not> loading (ui (nav_step drive (Fail rid err) t)))"
proof -
  have fail_files: "files (ui (nav_step drive (Fail rid err) t)) = files (ui t)"
    by (simp add: settle_def loadFiles_settle_def split: option.splits)
  have fail_error: "map_of (inflight t) rid \<noteq> None \<Longrightarrow>
      error (ui (nav_step drive (Fail rid err) t))
        = Some (case err of JsError message \<Rightarrow> message | JsOther \<Rightarrow> ''Failed to load files'')
      \<and> \<not> loading (ui (nav_step drive (Fail rid err) t))"
    using settle_Fail_ui [of t rid _ drive err] by auto
  show ?thesis
    using nav_handleFolderClick [of folder s] inflight_handleFolderClick [of folder s]
      nav_handleBreadcrumbClick [of s index] fail_files fail_error
    by simp
qed

theorem navigation_applied_before_listing_witness:
  "breadcrumb (ui (nav_step example_drive (Fail 1 JsOther)
       (handleFolderClick folderA (nav_run example_drive [Reload, Succeed 0] initial_system))))
     = [root_item, \<lparr>id_item = ''A'', name_item = ''Album''\<rparr>]
   \<and> error (ui (nav_step example_drive (Fail 1 JsOther)
       (handleFolderClick folderA (nav_run example_drive [Reload, Succeed 0] initial_system))))
     = Some ''Failed to load files''
   \<and> breadcrumb (ui (handleBreadcrumbClick 0
       (handleFolderClick folderA (nav_run example_drive [Reload, Succeed 0] initial_system))))
     = [root_item]"
  using navigation_applied_before_listing
    [of folderA "nav_run example_drive [Reload, Succeed 0] initial_system" 0 example_drive 1
       "handleFolderClick folderA (nav_run example_drive [Reload, Succeed 0] initial_system)"
       JsOther]
    navigation_applied_before_listing
    [of folderA "handleFolderClick folderA (nav_run example_drive [Reload, Succeed 0] initial_system)"
       0 example_drive 1 initial_system JsOther]
  by (simp add: nav_eval)

subsection \<open>Listings that overlap\<close>

text \<open>
  The claim C4 (a stale listing is discarded) does not hold: the listing of A is started,
  then the root breadcrumb is clicked; the listing of the root settles first and the
  listing of A last, and the component shows the children of A under the current folder
  root.
\<close>

theorem stale_listing_counterexample:
  "inflight (nav_run example_drive
      [Reload, Succeed 0, EnterFolder folderA, JumpToBreadcrumb 0, Succeed 2, Succeed 1]
      initial_system) = []
   \<and> currentFolderId (ui (nav_run example_drive
      [Reload, Succeed 0, EnterFolder folderA, JumpToBreadcrumb 0, Succeed 2, Succeed 1]
      initial_system)) = ''root''
   \<and> files (ui (nav_run example_drive
      [Reload, Succeed 0, EnterFolder folderA, JumpToBreadcrumb 0, Succeed 2, Succeed 1]
      initial_system)) = example_drive ''A''
   \<and> files (ui (nav_run example_drive
      [Reload, Succeed 0, EnterFolder folderA, JumpToBreadcrumb 0, Succeed 2, Succeed 1]
      initial_system))
      \<noteq> example_drive (currentFolderId (ui (nav_run example_drive
      [Reload, Succeed 0, EnterFolder folderA, JumpToBreadcrumb 0, Succeed 2, Succeed 1]
      initial_system)))"
  by (simp add: nav_eval)

lemma ids_bounded_begin:
  assumes "ids_bounded s"
  shows "ids_bounded (loadFiles_begin f (s\<lparr>ui := b\<rparr>))"
  using assms by (auto simp: ids_bounded_def loadFiles_begin_def)

lemma ids_bounded_step:
  assumes "ids_bounded s"
  shows "ids_bounded (nav_step drive ev s)"
proof (cases ev)
  case (EnterFolder folder)
  then show ?thesis
    using ids_bounded_begin [OF assms] by (simp add: handleFolderClick_def)
next
  case (JumpToBreadcrumb index)
  then show ?thesis
    using ids_bounded_begin [OF assms] assms
    by (simp add: handleBreadcrumbClick_def Let_def ids_bounded_def split: list.splits)
next
  case Reload
  then show ?thesis using ids_bounded_begin [OF assms, of _ "ui s"] by simp
next
  case (Succeed rid)
  then show ?thesis
    using assms by (auto simp: ids_bounded_def settle_def split: option.splits)
next
  case (Fail rid err)
  then show ?thesis
    using assms by (auto simp: ids_bounded_def settle_def split: option.splits)
next
  case AuthBegin
  then show ?thesis
    using assms by (simp add: ids_bounded_def handleAuthentication_begin_def)
next
  case (AuthRejected err)
  then show ?thesis
    using assms by (simp add: ids_bounded_def handleAuthentication_rejected_def)
next
  case AuthGranted
  then show ?thesis
    using ids_bounded_begin [OF assms] by (simp add: handleAuthentication_granted_def)
qed

lemma ids_bounded_run: "ids_bounded s \<Longrightarrow> ids_bounded (nav_run drive evs s)"
  unfolding nav_run_def by (induction evs arbitrary: s) (simp_all add: ids_bounded_step)

lemma ids_bounded_initial: "ids_bounded initial_system"
  by (simp add: ids_bounded_def initial_system_def)

lemma inflight_begin:
  assumes "ids_bounded s"
  shows "map_of (inflight (loadFiles_begin f (s\<lparr>ui := b\<rparr>))) (issued s) = Some f"
proof -
  have "issued s \<notin> fst ` set (inflight s)"
    using assms by (auto simp: ids_bounded_def)
  then have "map_of (inflight s) (issued s) = None" by (simp add: map_of_eq_None_iff)
  then show ?thesis by (simp add: loadFiles_begin_def map_add_def)
qed

lemma navigation_issues_current:
  assumes "ids_bounded s" "nav_invariant (ui s)" "is_navigation a"
  shows "map_of (inflight (nav_step drive a s)) (issued s)
           = Some (currentFolderId (ui (nav_step drive a s)))"
proof (cases a)
  case (EnterFolder folder)
  then show ?thesis
    using inflight_begin [OF assms(1)] by (simp add: handleFolderClick_def)
next
  case (JumpToBreadcrumb index)
  from assms(2) have ne: "take (Suc index) (breadcrumb (ui s)) \<noteq> []"
    by (simp add: nav_invariant_def)
  then obtain t ts where r: "rev (take (Suc index) (breadcrumb (ui s))) = t # ts"
    by (cases "rev (take (Suc index) (breadcrumb (ui s)))") simp_all
  have "handleBreadcrumbClick index s = loadFiles_begin (id_item t)
      (s\<lparr>ui := (ui s)\<lparr>breadcrumb := take (Suc index) (breadcrumb (ui s)),
                       currentFolderId := id_item t\<rparr>\<rparr>)"
    by (simp add: handleBreadcrumbClick_def Let_def r)
  then show ?thesis
    using JumpToBreadcrumb inflight_begin [OF assms(1)] by simp
next
  case Reload
  then show ?thesis using inflight_begin [OF assms(1), of _ "ui s"] by simp
qed (use assms(3) in simp_all)

lemma map_of_filter_other:
  "k \<noteq> r \<Longrightarrow> map_of (filter (\<lambda>p. fst p \<noteq> r) xs) k = map_of xs k"
  by (induction xs) auto

lemma settle_other_keeps:
  assumes "r \<noteq> k"
  shows "map_of (inflight (settle r outcome s)) k = map_of (inflight s) k"
  using assms by (simp add: settle_def map_of_filter_other split: option.splits)

lemma others_keep:
  assumes "\<forall>e \<in> set others. settles_other k e"
  shows "map_of (inflight (nav_run drive others s)) k = map_of (inflight s) k
       \<and> currentFolderId (ui (nav_run drive others s)) = currentFolderId (ui s)"
  using assms unfolding nav_run_def
proof (induction others arbitrary: s)
  case Nil
  then show ?case by simp
next
  case (Cons e es)
  have e: "settles_other k e" using Cons.prems by simp
  have step: "map_of (inflight (nav_step drive e s)) k = map_of (inflight s) k
       \<and> currentFolderId (ui (nav_step drive e s)) = currentFolderId (ui s)"
    using e by (cases e) (simp_all add: settle_other_keeps)
  have "map_of (inflight (fold (nav_step drive) es (nav_step drive e s))) k
          = map_of (inflight (nav_step drive e s)) k
       \<and> currentFolderId (ui (fold (nav_step drive) es (nav_step drive e s)))
          = currentFolderId (ui (nav_step drive e s))"
    using Cons.prems by (intro Cons.IH) simp
  then show ?case using step by simp
qed

text \<open>
  C4, amended. No listing result is discarded: a listing that succeeds always replaces the
  displayed file list with the children of the folder it asked for, whatever has been
  requested since. The listing started by entering a folder, by a breadcrumb or by the
  reload asks for the folder that action makes current; when it succeeds, other listings
  having settled in between but no further action taken, the displayed list is that of
  the current folder. The listing started by the authentication handler always asks for
  the root, whatever the current folder is. A listing that settles later overwrites the
  list.
\<close>

theorem own_listing_displayed:
  assumes "s = nav_run drive evs initial_system"
  shows "(\<forall>rid f. map_of (inflight s) rid = Some f
            \<longrightarrow> files (ui (nav_step drive (Succeed rid) s)) = drive f)
       \<and> (\<forall>a others. is_navigation a \<and> (\<forall>e \<in> set others. settles_other (issued s) e)
            \<longrightarrow> files (ui (nav_step drive (Succeed (issued s))
                              (nav_run drive others (nav_step drive a s))))
                 = drive (currentFolderId (ui (nav_step drive (Succeed (issued s))
                              (nav_run drive others (nav_step drive a s))))))
       \<and> map_of (inflight (nav_step drive AuthGranted s)) (issued s) = Some ''root''
       \<and> currentFolderId (ui (nav_step drive AuthGranted s)) = currentFolderId (ui s)"
proof -
  have b: "ids_bounded s"
    unfolding assms using ids_bounded_initial by (rule ids_bounded_run)
  have n: "nav_invariant (ui s)"
    unfolding assms using nav_invariant_initial by (rule nav_invariant_run)
  have 1: "files (ui (nav_step drive (Succeed rid) s)) = drive f"
    if "map_of (inflight s) rid = Some f" for rid f
    using that by (rule settle_Succeed_files)
  have 2: "files (ui (nav_step drive (Succeed (issued s))
                              (nav_run drive others (nav_step drive a s))))
                 = drive (currentFolderId (ui (nav_step drive (Succeed (issued s))
                              (nav_run drive others (nav_step drive a s)))))"
    if a: "is_navigation a" and o: "\<forall>e \<in> set others. settles_other (issued s) e"
    for a others
  proof -
    let ?s1 = "nav_step drive a s"
    let ?s2 = "nav_run drive others ?s1"
    have "map_of (inflight ?s1) (issued s) = Some (currentFolderId (ui ?s1))"
      using b n a by (rule navigation_issues_current)
    then have m: "map_of (inflight ?s2) (issued s) = Some (currentFolderId (ui ?s2))"
      using others_keep [OF o, of drive ?s1] by simp
    have "files (ui (nav_step drive (Succeed (issued s)) ?s2))
            = drive (currentFolderId (ui ?s2))"
      using m by (rule settle_Succeed_files)
    then show ?thesis by simp
  qed
  have 3: "map_of (inflight (nav_step drive AuthGranted s)) (issued s) = Some ''root''"
    using inflight_begin [OF b] by (simp add: handleAuthentication_granted_def)
  have 4: "currentFolderId (ui (nav_step drive AuthGranted s)) = currentFolderId (ui s)"
    by (simp add: handleAuthentication_granted_def)
  show ?thesis using 1 2 3 4 by blast
qed

theorem own_listing_displayed_witness:
  "files (ui (nav_run example_drive
       [AuthBegin, AuthGranted, Succeed 0, EnterFolder folderA, Succeed 1] initial_system))
     = [picture]
   \<and> currentFolderId (ui (nav_run example_drive
       [AuthBegin, AuthGranted, Succeed 0, EnterFolder folderA, Succeed 1] initial_system))
     = ''A''
   \<and> example_drive ''A'' = [picture]
   \<and> files (ui (nav_run example_drive
       [AuthBegin, AuthGranted, Succeed 0, EnterFolder folderA, Fail 1 JsOther,
        AuthBegin, AuthGranted, Succeed 2] initial_system))
     = example_drive ''root''
   \<and> currentFolderId (ui (nav_run example_drive
       [AuthBegin, AuthGranted, Succeed 0, EnterFolder folderA, Fail 1 JsOther,
        AuthBegin, AuthGranted, Succeed 2] initial_system))
     = ''A''"
  using own_listing_displayed
    [of "nav_run example_drive [AuthBegin, AuthGranted, Succeed 0] initial_system"
      example_drive "[AuthBegin, AuthGranted, Succeed 0]"]
    own_listing_displayed
    [of "nav_run example_drive
           [AuthBegin, AuthGranted, Succeed 0, EnterFolder folderA, Fail 1 JsOther, AuthBegin]
           initial_system"
      example_drive
      "[AuthBegin, AuthGranted, Succeed 0, EnterFolder folderA, Fail 1 JsOther, AuthBegin]"]
  by (simp add: nav_eval)

section \<open>Properties of the session manager\<close>

subsection \<open>Cached token or new acquisition\<close>

lemma isAuthenticated_iff:
  assumes "accessToken s \<noteq> Some []"
  shows "isAuthenticated s now
           \<longleftrightarrow> (\<exists>token e. accessToken s = Some token \<and> tokenExpiry s = Some e \<and> int now < e)"
  using assms
  by (auto simp: isAuthenticated_def truthy_string_def truthy_number_def before_expiry_def
      split: option.splits)

lemma getAccessToken_cached:
  assumes "isAuthenticated s now" "accessToken s = Some token"
  shows "getAccessToken g now reply s = (s, Resolved token)"
  using assms by (simp add: getAccessToken_def isAuthenticated_def)

lemma getAccessToken_fresh:
  assumes "\<not> isAuthenticated s now"
  shows "getAccessToken g now reply s = requestAccessToken g reply s"
  using assms unfolding getAccessToken_def isAuthenticated_def by (simp only: if_False)

text \<open>
  The cached token is never the empty string as long as the provider grants no empty
  token: the assumption on the token made below holds in every state a client can reach
  from a new service.
\<close>

lemma requestAccessToken_token:
  "accessToken (fst (requestAccessToken g reply s)) = accessToken s
   \<or> (\<exists>t response. reply = Some (t, response)
         \<and> accessToken (fst (requestAccessToken g reply s)) = Some (access_token response))"
  by (auto simp: requestAccessToken_def initialize_def Let_def
      split: option.splits sum.splits gis.splits prod.splits if_splits)

lemma token_nonempty_step:
  assumes "accessToken s \<noteq> Some []"
    and "\<And>g t response. op = OpGetAccessToken g (Some (t, response))
           \<Longrightarrow> access_token response \<noteq> []"
  shows "accessToken (auth_step (now, op) s) \<noteq> Some []"
proof (cases op)
  case (OpInitialize g)
  then show ?thesis using assms(1) by (auto simp: initialize_def split: gis.splits)
next
  case (OpGetAccessToken g reply)
  show ?thesis
  proof (cases "isAuthenticated s now")
    case True
    then have "fst (getAccessToken g now reply s) = s"
      by (auto simp: getAccessToken_def isAuthenticated_def truthy_string_def split: option.splits)
    then show ?thesis using OpGetAccessToken assms(1) by simp
  next
    case False
    then have "auth_step (now, op) s = fst (requestAccessToken g reply s)"
      using OpGetAccessToken getAccessToken_fresh by simp
    then show ?thesis
      using requestAccessToken_token [of g reply s] assms OpGetAccessToken by auto
  qed
next
  case OpIsAuthenticated
  then show ?thesis using assms(1) by simp
next
  case OpSignOut
  then show ?thesis by (simp add: signOut_def)
qed

lemma requestAccessToken_ready:
  assumes "tokenClient s \<or> (CLIENT_ID s \<noteq> [] \<and> g = Loaded)"
  shows "prompts (fst (requestAccessToken g reply s)) = Suc (prompts s)"
    and "\<not> truthy_string (resp_error response) \<Longrightarrow>
         snd (requestAccessToken g (Some (t, response)) s) = Resolved (access_token response)
         \<and> accessToken (fst (requestAccessToken g (Some (t, response)) s))
             = Some (access_token response)
         \<and> tokenExpiry (fst (requestAccessToken g (Some (t, response)) s))
             = Some (int t + expires_in response * 1000)"
  using assms
  by (auto simp: requestAccessToken_def initialize_def Let_def split: option.splits prod.splits)

text \<open>
  C7. For a service whose cached token, if there is one, is not the empty string (no
  provider issues an empty access token): the token is valid iff it is present and the
  clock is strictly before the expiry instant; \<open>getAccessToken\<close> then returns the cached
  token and leaves the service as it is, so that no consent screen is opened; otherwise
  (no token, or the clock at or past the expiry) it is the interactive acquisition: with a
  token client at hand a consent screen is opened, and the token of a granted consent is
  returned.
\<close>

theorem getAccessToken_rule:
  assumes "accessToken s \<noteq> Some []"
  shows "(isAuthenticated s now
            \<longleftrightarrow> (\<exists>token e. accessToken s = Some token \<and> tokenExpiry s = Some e \<and> int now < e))
       \<and> (\<forall>token e. accessToken s = Some token \<and> tokenExpiry s = Some e \<and> int now < e
            \<longrightarrow> getAccessToken g now reply s = (s, Resolved token))
       \<and> (\<not> (\<exists>token e. accessToken s = Some token \<and> tokenExpiry s = Some e \<and> int now < e)
            \<longrightarrow> getAccessToken g now reply s = requestAccessToken g reply s
              \<and> (tokenClient s \<or> (CLIENT_ID s \<noteq> [] \<and> g = Loaded)
                   \<longrightarrow> prompts (fst (getAccessToken g now reply s)) = Suc (prompts s)
                     \<and> (\<forall>t response. reply = Some (t, response)
                            \<and> \<not> truthy_string (resp_error response)
                          \<longrightarrow> snd (getAccessToken g now reply s)
                                = Resolved (access_token response))))"
proof -
  note iff = isAuthenticated_iff [OF assms, of now]
  have a: "\<forall>token e. accessToken s = Some token \<and> tokenExpiry s = Some e \<and> int now < e
            \<longrightarrow> getAccessToken g now reply s = (s, Resolved token)"
    using iff getAccessToken_cached by blast
  have b: "getAccessToken g now reply s = requestAccessToken g reply s"
    if "\<not> (\<exists>token e. accessToken s = Some token \<and> tokenExpiry s = Some e \<and> int now < e)"
    using that iff getAccessToken_fresh by blast
  have c: "prompts (fst (requestAccessToken g reply s)) = Suc (prompts s)
           \<and> (\<forall>t response. reply = Some (t, response) \<and> \<not> truthy_string (resp_error response)
                \<longrightarrow> snd (requestAccessToken g reply s) = Resolved (access_token response))"
    if "tokenClient s \<or> (CLIENT_ID s \<noteq> [] \<and> g = Loaded)"
    using requestAccessToken_ready [OF that] by blast
  show ?thesis using iff a b c by (metis (no_types, lifting))
qed

theorem getAccessToken_rule_witness:
  "isAuthenticated signed_in 1000
   \<and> getAccessToken Loaded 1000 (Some (1000, granted)) signed_in = (signed_in, Resolved ''ya29.a0'')
   \<and> \<not> isAuthenticated signed_in 3600000
   \<and> snd (getAccessToken Loaded 3600000 (Some (3600500, granted)) signed_in) = Resolved ''ya29.a0''
   \<and> prompts (fst (getAccessToken Loaded 3600000 (Some (3600500, granted)) signed_in)) = 2
   \<and> snd (getAccessToken Loaded 5 (Some (900, granted)) (new_service ''client-1''))
       = Resolved ''ya29.a0''"
  using getAccessToken_rule [of signed_in 1000 Loaded "Some (1000, granted)"]
    getAccessToken_rule [of signed_in 3600000 Loaded "Some (3600500, granted)"]
    getAccessToken_rule [of "new_service ''client-1''" 5 Loaded "Some (900, granted)"]
  by (simp add: signed_in_def granted_def new_service_def truthy_string_def truthy_number_def
      before_expiry_def isAuthenticated_def getAccessToken_def requestAccessToken_def
      initialize_def Let_def)

subsection \<open>Validity of a session\<close>

lemma getAccessToken_resolved:
  assumes "getAccessToken g T reply s0 = (s1, Resolved token)"
  shows "accessToken s1 = Some token" and "\<exists>E. tokenExpiry s1 = Some E"
proof -
  show "accessToken s1 = Some token"
    using assms
    by (auto simp: getAccessToken_def requestAccessToken_def initialize_def Let_def
        truthy_string_def
        split: if_splits option.splits sum.splits gis.splits prod.splits)
  show "\<exists>E. tokenExpiry s1 = Some E"
    using assms
    by (auto simp: getAccessToken_def requestAccessToken_def initialize_def Let_def
        truthy_number_def
        split: if_splits option.splits sum.splits gis.splits prod.splits)
qed

lemma live_isAuthenticated:
  assumes "accessToken s = Some token" "token \<noteq> []" "tokenExpiry s = Some E"
  shows "isAuthenticated s t \<longleftrightarrow> int t < E"
  using assms
  by (auto simp: isAuthenticated_def truthy_string_def truthy_number_def before_expiry_def)

lemma live_step:
  assumes "accessToken s = Some token" "token \<noteq> []" "tokenExpiry s = Some E"
    and "int now < E" "\<not> is_sign_out op"
  shows "accessToken (auth_step (now, op) s) = Some token
       \<and> tokenExpiry (auth_step (now, op) s) = Some E
       \<and> prompts (auth_step (now, op) s) = prompts s"
proof (cases op)
  case (OpInitialize g)
  then show ?thesis
    using assms by (auto simp: initialize_def split: gis.splits)
next
  case (OpGetAccessToken g reply)
  have "isAuthenticated s now" using assms live_isAuthenticated by blast
  then have "getAccessToken g now reply s = (s, Resolved token)"
    using assms(1) by (rule getAccessToken_cached)
  then show ?thesis using OpGetAccessToken assms by simp
next
  case OpIsAuthenticated
  then show ?thesis using assms by simp
next
  case OpSignOut
  then show ?thesis using assms by simp
qed

lemma live_run:
  assumes "accessToken s = Some token" "token \<noteq> []" "tokenExpiry s = Some E"
    and "\<forall>p \<in> set ops. int (fst p) < E \<and> \<not> is_sign_out (snd p)"
  shows "accessToken (auth_run ops s) = Some token
       \<and> tokenExpiry (auth_run ops s) = Some E
       \<and> prompts (auth_run ops s) = prompts s"
  using assms unfolding auth_run_def
proof (induction ops arbitrary: s)
  case Nil
  then show ?case by simp
next
  case (Cons p ops)
  obtain now op where p: "p = (now, op)" by (cases p)
  have here: "int now < E" "\<not> is_sign_out op" using Cons.prems(4) p by simp_all
  have st: "accessToken (auth_step (now, op) s) = Some token
       \<and> tokenExpiry (auth_step (now, op) s) = Some E
       \<and> prompts (auth_step (now, op) s) = prompts s"
    using Cons.prems(1-3) here by (rule live_step)
  have "accessToken (fold auth_step ops (auth_step (now, op) s)) = Some token
       \<and> tokenExpiry (fold auth_step ops (auth_step (now, op) s)) = Some E
       \<and> prompts (fold auth_step ops (auth_step (now, op) s)) = prompts (auth_step (now, op) s)"
    using st Cons.prems(2,4) by (intro Cons.IH) simp_all
  then show ?case using st p by simp
qed

lemma requestAccessToken_expiry:
  "tokenExpiry (fst (requestAccessToken g reply s)) = tokenExpiry s
   \<or> (\<exists>t response. reply = Some (t, response)
         \<and> prompts (fst (requestAccessToken g reply s)) = Suc (prompts s)
         \<and> accessToken (fst (requestAccessToken g reply s)) = Some (access_token response)
         \<and> tokenExpiry (fst (requestAccessToken g reply s))
             = Some (int t + expires_in response * 1000))"
  by (auto simp: requestAccessToken_def initialize_def Let_def
      split: option.splits sum.splits gis.splits prod.splits if_splits)

lemma expiry_changes:
  "tokenExpiry (auth_step (now, op) s) = tokenExpiry s
   \<or> (op = OpSignOut \<and> tokenExpiry (auth_step (now, op) s) = None)
   \<or> (\<exists>g t response. op = OpGetAccessToken g (Some (t, response))
         \<and> \<not> isAuthenticated s now
         \<and> prompts (auth_step (now, op) s) = Suc (prompts s)
         \<and> accessToken (auth_step (now, op) s) = Some (access_token response)
         \<and> tokenExpiry (auth_step (now, op) s) = Some (int t + expires_in response * 1000))"
proof (cases op)
  case (OpInitialize g)
  then show ?thesis by (auto simp: initialize_def split: gis.splits)
next
  case (OpGetAccessToken g reply)
  show ?thesis
  proof (cases "isAuthenticated s now")
    case True
    then have "getAccessToken g now reply s = (s, Resolved (case accessToken s of Some k \<Rightarrow> k | None \<Rightarrow> []))"
      by (auto simp: getAccessToken_def isAuthenticated_def truthy_string_def split: option.splits)
    then show ?thesis using OpGetAccessToken by simp
  next
    case False
    then have eq: "getAccessToken g now reply s = requestAccessToken g reply s"
      by (rule getAccessToken_fresh)
    have step: "auth_step (now, op) s = fst (requestAccessToken g reply s)"
      using OpGetAccessToken eq by simp
    show ?thesis
      unfolding step using requestAccessToken_expiry [of g reply s] False OpGetAccessToken
      by blast
  qed
next
  case OpIsAuthenticated
  then show ?thesis by simp
next
  case OpSignOut
  then show ?thesis by (simp add: signOut_def)
qed

text \<open>
  C6. Once \<open>getAccessToken\<close> has succeeded with a (non-empty) token and the expiry instant
  E is stored, \<open>isAuthenticated\<close> is true at every time before E, and stays so through any
  run of operations other than the sign-out issued before E: they change neither the
  token nor the expiry and open no consent screen. It is false from E on, and after the
  sign-out. No operation moves the stored expiry instant except a fresh token issuance;
  the sign-out, which ends the session, clears it.
\<close>

theorem session_validity:
  assumes "getAccessToken g T reply s0 = (s1, Resolved token)"
    and "token \<noteq> []" and "tokenExpiry s1 = Some E"
  shows "(\<forall>t. int t < E \<longrightarrow> isAuthenticated s1 t)
       \<and> (\<forall>ops. (\<forall>p \<in> set ops. int (fst p) < E \<and> \<not> is_sign_out (snd p)) \<longrightarrow>
             accessToken (auth_run ops s1) = Some token
           \<and> tokenExpiry (auth_run ops s1) = Some E
           \<and> prompts (auth_run ops s1) = prompts s1
           \<and> (\<forall>t. int t < E \<longrightarrow> isAuthenticated (auth_run ops s1) t))
       \<and> (\<forall>t. E \<le> int t \<longrightarrow> \<not> isAuthenticated s1 t)
       \<and> (\<forall>t. \<not> isAuthenticated (signOut s1) t)
       \<and> (\<forall>s now op.
             tokenExpiry (auth_step (now, op) s) = tokenExpiry s
           \<or> (op = OpSignOut \<and> tokenExpiry (auth_step (now, op) s) = None)
           \<or> (\<exists>g' t response. op = OpGetAccessToken g' (Some (t, response))
                \<and> \<not> isAuthenticated s now
                \<and> prompts (auth_step (now, op) s) = Suc (prompts s)
                \<and> accessToken (auth_step (now, op) s) = Some (access_token response)
                \<and> tokenExpiry (auth_step (now, op) s)
                    = Some (int t + expires_in response * 1000)))"
proof -
  have tok: "accessToken s1 = Some token" using assms(1) by (rule getAccessToken_resolved)
  note live = live_isAuthenticated [OF tok assms(2,3)]
  have a: "\<forall>t. int t < E \<longrightarrow> isAuthenticated s1 t" using live by simp
  have b: "accessToken (auth_run ops s1) = Some token
           \<and> tokenExpiry (auth_run ops s1) = Some E
           \<and> prompts (auth_run ops s1) = prompts s1
           \<and> (\<forall>t. int t < E \<longrightarrow> isAuthenticated (auth_run ops s1) t)"
    if h: "\<forall>p \<in> set ops. int (fst p) < E \<and> \<not> is_sign_out (snd p)" for ops
  proof -
    have r: "accessToken (auth_run ops s1) = Some token
           \<and> tokenExpiry (auth_run ops s1) = Some E
           \<and> prompts (auth_run ops s1) = prompts s1"
      using tok assms(2,3) h by (rule live_run)
    then have "\<forall>t. int t < E \<longrightarrow> isAuthenticated (auth_run ops s1) t"
      using live_isAuthenticated [of "auth_run ops s1" token E] assms(2) by simp
    then show ?thesis using r by simp
  qed
  have c: "\<forall>t. E \<le> int t \<longrightarrow> \<not> isAuthenticated s1 t" using live by simp
  have d: "\<forall>t. \<not> isAuthenticated (signOut s1) t"
    by (simp add: isAuthenticated_def signOut_def truthy_string_def)
  show ?thesis
    using a b c d expiry_changes by (intro conjI allI impI) blast+
qed

theorem session_validity_witness:
  "isAuthenticated (fst (getAccessToken Loaded 1000 (Some (2000, granted)) (new_service ''client-1'')))
      (2000 + 3599000)
   \<and> \<not> isAuthenticated (fst (getAccessToken Loaded 1000 (Some (2000, granted)) (new_service ''client-1'')))
      (2000 + 3601000)
   \<and> tokenExpiry (auth_run [(5000, OpIsAuthenticated), (6000, OpGetAccessToken Loaded None),
                            (7000, OpInitialize Loaded)]
        (fst (getAccessToken Loaded 1000 (Some (2000, granted)) (new_service ''client-1''))))
       = Some 3602000"
proof -
  let ?s1 = "fst (getAccessToken Loaded 1000 (Some (2000, granted)) (new_service ''client-1''))"
  have g: "getAccessToken Loaded 1000 (Some (2000, granted)) (new_service ''client-1'')
      = (?s1, Resolved ''ya29.a0'')"
    by (simp add: getAccessToken_def requestAccessToken_def initialize_def new_service_def
        granted_def truthy_string_def Let_def)
  have e: "tokenExpiry ?s1 = Some 3602000"
    by (simp add: getAccessToken_def requestAccessToken_def initialize_def new_service_def
        granted_def truthy_string_def Let_def)
  have n: "''ya29.a0'' \<noteq> []" by simp
  note th = session_validity [OF g n e]
  have 1: "isAuthenticated ?s1 (2000 + 3599000)" using th by simp
  have 2: "\<not> isAuthenticated ?s1 (2000 + 3601000)" using th by simp
  have 3: "tokenExpiry (auth_run [(5000, OpIsAuthenticated), (6000, OpGetAccessToken Loaded None),
                            (7000, OpInitialize Loaded)] ?s1) = Some 3602000"
    using th by simp
  show ?thesis using 1 2 3 by simp
qed

section \<open>Properties of the listing\<close>

lemma listFiles_token_rejected:
  assumes "snd (getAccessToken g now reply s) = Rejected e"
  shows "snd (listFiles g now reply fetch folderId pageToken s) = Rejected e"
  using assms by (cases "getAccessToken g now reply s") (simp add: listFiles_def)

lemma listFiles_responded:
  assumes "getAccessToken g now reply s = (s', Resolved token)"
    and "fetch folderId (if truthy_string pageToken then pageToken else None) token
           = Resolved response"
  shows "listFiles g now reply fetch folderId pageToken s =
     (if \<not> ok response
      then (s', Rejected (JsError (''Failed to fetch files: '' @ statusText response)))
      else case json response of
             Pending \<Rightarrow> (s', Pending)
           | Rejected e \<Rightarrow> (s', Rejected e)
           | Resolved data \<Rightarrow>
               if data = JNull then (s', Rejected (JsError null_read_message))
               else
                 (s', Resolved
                    \<lparr>page_files =
                       (case own_field data ''files'' of
                          None \<Rightarrow> JArray []
                        | Some v \<Rightarrow> if truthy v then v else JArray []),
                     page_nextPageToken = own_field data ''nextPageToken''\<rparr>))"
  using assms by (simp add: listFiles_def)

text \<open>
  The claim C10 does not hold in two ways. A listing call fails although no HTTP response
  is not ok: with the consent denied the call is rejected before any request is made. And
  a successful response whose body lacks the files field does not always give the empty
  list: for the body null the call is rejected.
\<close>

theorem listFiles_fails_counterexample:
  "snd (listFiles Loaded 1000 (Some (2000, denied)) always_ok ''root'' None
          (new_service ''client-1''))
     = Rejected (JsError ''access_denied'')
   \<and> always_ok ''root'' None [] = Resolved ok_without_files
   \<and> ok ok_without_files
   \<and> snd (listFiles Loaded 1000 None always_null ''root'' None signed_in)
     = Rejected (JsError null_read_message)
   \<and> always_null ''root'' None ''ya29.a0'' = Resolved ok_null_body
   \<and> ok ok_null_body
   \<and> json ok_null_body = Resolved JNull
   \<and> own_field JNull ''files'' = None"
  by (simp add: listFiles_def getAccessToken_def requestAccessToken_def initialize_def
      new_service_def denied_def always_ok_def ok_without_files_def truthy_string_def Let_def
      always_null_def ok_null_body_def signed_in_def truthy_number_def before_expiry_def
      own_field_def)

text \<open>
  C10, amended. For a successful response whose body is not null and lacks the files
  field (or holds a falsy one) the call returns an empty file list, with the body's page
  token. The call fails exactly when the token cannot be obtained, when the request
  itself is rejected, when the response is not ok, when the body of a successful response
  cannot be read, or when that body is null.
\<close>

theorem listFiles_rule:
  "(\<forall>s' token response data.
       getAccessToken g now reply s = (s', Resolved token)
       \<and> fetch folderId (if truthy_string pageToken then pageToken else None) token
            = Resolved response
       \<and> ok response \<and> json response = Resolved data \<and> data \<noteq> JNull
       \<and> (own_field data ''files'' = None
            \<or> (\<exists>v. own_field data ''files'' = Some v \<and> \<not> truthy v))
     \<longrightarrow> listFiles g now reply fetch folderId pageToken s
          = (s', Resolved \<lparr>page_files = JArray [],
                           page_nextPageToken = own_field data ''nextPageToken''\<rparr>))
   \<and> (\<forall>e. snd (listFiles g now reply fetch folderId pageToken s) = Rejected e
          \<longleftrightarrow> snd (getAccessToken g now reply s) = Rejected e
            \<or> (\<exists>token. snd (getAccessToken g now reply s) = Resolved token
                 \<and> (fetch folderId (if truthy_string pageToken then pageToken else None) token
                       = Rejected e
                    \<or> (\<exists>response.
                          fetch folderId (if truthy_string pageToken then pageToken else None)
                            token = Resolved response
                          \<and> (\<not> ok response
                               \<and> e = JsError (''Failed to fetch files: '' @ statusText response)
                             \<or> ok response \<and> json response = Rejected e
                             \<or> ok response \<and> json response = Resolved JNull
                               \<and> e = JsError null_read_message)))))"
proof -
  obtain s' r where ga: "getAccessToken g now reply s = (s', r)"
    by (cases "getAccessToken g now reply s")
  let ?pt = "if truthy_string pageToken then pageToken else None"
  have a: "listFiles g now reply fetch folderId pageToken s
          = (s1, Resolved \<lparr>page_files = JArray [],
                            page_nextPageToken = own_field data ''nextPageToken''\<rparr>)"
    if "getAccessToken g now reply s = (s1, Resolved token)"
      "fetch folderId ?pt token = Resolved response"
      "ok response" "json response = Resolved data" "data \<noteq> JNull"
      "own_field data ''files'' = None
         \<or> (\<exists>v. own_field data ''files'' = Some v \<and> \<not> truthy v)"
    for s1 token response data
    using that
    by (auto simp: listFiles_responded [of g now reply s s1 token fetch folderId pageToken response])
  have b: "snd (listFiles g now reply fetch folderId pageToken s) = Rejected e
          \<longleftrightarrow> snd (getAccessToken g now reply s) = Rejected e
            \<or> (\<exists>token. snd (getAccessToken g now reply s) = Resolved token
                 \<and> (fetch folderId ?pt token = Rejected e
                    \<or> (\<exists>response. fetch folderId ?pt token = Resolved response
                          \<and> (\<not> ok response
                               \<and> e = JsError (''Failed to fetch files: '' @ statusText response)
                             \<or> ok response \<and> json response = Rejected e
                             \<or> ok response \<and> json response = Resolved JNull
                               \<and> e = JsError null_read_message))))" for e
  proof (cases r)
    case Pending
    then show ?thesis using ga by (simp add: listFiles_def)
  next
    case (Rejected e')
    then show ?thesis using ga by (simp add: listFiles_def)
  next
    case (Resolved token)
    show ?thesis
    proof (cases "fetch folderId ?pt token")
      case Pending
      then show ?thesis using ga Resolved by (simp add: listFiles_def)
    next
      case (Rejected e')
      then show ?thesis using ga Resolved by (simp add: listFiles_def)
    next
      case fr: (Resolved response)
      have r: "getAccessToken g now reply s = (s', Resolved token)" using ga Resolved by simp
      show ?thesis
        unfolding listFiles_responded [of g now reply s s' token fetch folderId pageToken response, OF r fr]
        using r fr by (cases "json response") auto
    qed
  qed
  show ?thesis using a b by blast
qed

theorem listFiles_rule_witness:
  "listFiles Loaded 1000 None always_ok ''root'' None signed_in
     = (signed_in, Resolved \<lparr>page_files = JArray [], page_nextPageToken = None\<rparr>)
   \<and> snd (listFiles Loaded 1000 None always_null ''root'' None signed_in)
     = Rejected (JsError null_read_message)"
  using listFiles_rule [of Loaded 1000 None signed_in always_ok "''root''" None]
    listFiles_rule [of Loaded 1000 None signed_in always_null "''root''" None]
  by (simp add: listFiles_def getAccessToken_def signed_in_def always_ok_def always_null_def
      ok_without_files_def ok_null_body_def truthy_string_def truthy_number_def
      before_expiry_def own_field_def)

end
